theory Spec2Isabelle
  imports Main "HOL-Library.Word" "HOL-Library.AList" "HOL-Library.Product_Lexorder"
begin

unbundle bit_operations_syntax

section \<open>System catalogue (js/core.js, class Config)\<close>

text \<open>
  JavaScript numbers are modelled as \<open>int\<close>: every address, pointer value and offset of
  the program is an integer far below \<open>2 ^ 53\<close>, where double arithmetic is exact.
  The bitwise operators of JavaScript first convert their operands to signed 32-bit
  integers and return a signed 32-bit integer; that conversion is written out with
  \<open>32 word\<close> and \<open>sint\<close> wherever the source uses \<open>&\<close>.
\<close>

record mem_range =
  min_addr :: int
  max_addr :: int

datatype memory_range = Single mem_range | Dual mem_range mem_range

record system_config =
  name :: string
  mask_opt :: "int option"
  memoryRange :: memory_range
  use24Bit :: bool
  dualRange :: bool
  rangeMode :: string

definition systems :: "(string \<times> system_config) list" where
  "systems =
    [(''n64'', \<lparr>name = ''Nintendo 64'', mask_opt = None,
        memoryRange = Single \<lparr>min_addr = 0x80000000, max_addr = 0x807FFFFF\<rparr>,
        use24Bit = True, dualRange = False, rangeMode = ''half''\<rparr>),
     (''ps1'', \<lparr>name = ''PlayStation 1'', mask_opt = Some 0x001FFFFF,
        memoryRange = Single \<lparr>min_addr = 0x80000000, max_addr = 0x801FFFFF\<rparr>,
        use24Bit = False, dualRange = False, rangeMode = ''half''\<rparr>),
     (''ps2'', \<lparr>name = ''PlayStation 2'', mask_opt = None,
        memoryRange = Single \<lparr>min_addr = 0x00100000, max_addr = 0x01FFFFFF\<rparr>,
        use24Bit = False, dualRange = False, rangeMode = ''quarter''\<rparr>),
     (''psp'', \<lparr>name = ''PlayStation Portable'', mask_opt = Some 0x01FFFFFF,
        memoryRange = Single \<lparr>min_addr = 0x08000000, max_addr = 0x09FFFFFF\<rparr>,
        use24Bit = False, dualRange = False, rangeMode = ''quarter''\<rparr>),
     (''gba'', \<lparr>name = ''Game Boy Advance'', mask_opt = None,
        memoryRange = Single \<lparr>min_addr = 0x02000000, max_addr = 0x0203FFFF\<rparr>,
        use24Bit = True, dualRange = False, rangeMode = ''full''\<rparr>),
     (''ds'', \<lparr>name = ''Nintendo DS'', mask_opt = None,
        memoryRange = Single \<lparr>min_addr = 0x02000000, max_addr = 0x023FFFFF\<rparr>,
        use24Bit = True, dualRange = False, rangeMode = ''quater''\<rparr>),
     (''dsi'', \<lparr>name = ''Nintendo DSi'', mask_opt = None,
        memoryRange = Single \<lparr>min_addr = 0x02000000, max_addr = 0x02FFFFFF\<rparr>,
        use24Bit = True, dualRange = False, rangeMode = ''quarter''\<rparr>),
     (''gamecube'', \<lparr>name = ''GameCube'', mask_opt = Some 0x17FFFFFF,
        memoryRange = Single \<lparr>min_addr = 0x80000000, max_addr = 0x817FFFFF\<rparr>,
        use24Bit = False, dualRange = False, rangeMode = ''quarter''\<rparr>),
     (''wii'', \<lparr>name = ''Wii'', mask_opt = Some 0x13FFFFFF,
        memoryRange = Dual \<lparr>min_addr = 0x80000000, max_addr = 0x817FFFFF\<rparr>
                           \<lparr>min_addr = 0x90000000, max_addr = 0x93FFFFFF\<rparr>,
        use24Bit = False, dualRange = True, rangeMode = ''wii''\<rparr>),
     (''dreamcast'', \<lparr>name = ''Dreamcast'', mask_opt = None,
        memoryRange = Single \<lparr>min_addr = 0x8C000000, max_addr = 0x8CFFFFFF\<rparr>,
        use24Bit = True, dualRange = False, rangeMode = ''half''\<rparr>)]"

text \<open>\<open>Config.defaults\<close>: the entries the core reads.\<close>

definition maxFiles :: nat where "maxFiles = 10"
definition alignmentMask :: int where "alignmentMask = 3"
definition warnBasePointerThreshold :: nat where "warnBasePointerThreshold = 50000"

text \<open>
  \<open>getSystemConfig\<close> is \<open>this.systems[systemId] || null\<close>. Keys that a JavaScript object
  inherits from its prototype are not part of the catalogue and not of the model.
\<close>

definition getSystemConfig :: "string \<Rightarrow> system_config option" where
  "getSystemConfig systemId = map_of systems systemId"

definition getSystemMask :: "string \<Rightarrow> int option" where
  "getSystemMask systemId =
     (case getSystemConfig systemId of None \<Rightarrow> None | Some cfg \<Rightarrow> mask_opt cfg)"

definition isValidSystem :: "string \<Rightarrow> bool" where
  "isValidSystem systemId = (getSystemConfig systemId \<noteq> None)"

record scan_range =
  label :: string
  rmin :: int
  rmax :: int

text \<open>\<open>addr & ~3\<close>: both operands pass through ToInt32 and the result is a signed 32-bit integer.\<close>

definition floorAlign :: "int \<Rightarrow> int" where
  "floorAlign addr = sint ((word_of_int addr :: 32 word) AND NOT 3)"

text \<open>
  \<open>Config.getRanges\<close>. The \<open>switch\<close> on \<open>cfg.rangeMode\<close> compares strings; a mode that no
  \<open>case\<close> names falls to \<open>default\<close>. \<open>Math.floor (size / 2)\<close> is \<open>div\<close>. A mode applied to a
  memory range of the other shape (a single range where a pair is destructured, or the
  reverse) does not occur in the catalogue; JavaScript would produce \<open>NaN\<close> bounds there,
  and the model returns no ranges.
\<close>

definition getRanges :: "string \<Rightarrow> scan_range list" where
  "getRanges systemId =
    (case getSystemConfig systemId of
       None \<Rightarrow> []
     | Some cfg \<Rightarrow>
        if rangeMode cfg = ''full'' then
          (case memoryRange cfg of
             Single m \<Rightarrow> [\<lparr>label = ''Range 1'', rmin = min_addr m, rmax = max_addr m\<rparr>]
           | Dual m1 m2 \<Rightarrow> [])
        else if rangeMode cfg = ''half'' then
          (case memoryRange cfg of
             Single m \<Rightarrow>
               (let size = max_addr m - min_addr m + 1;
                    mid = floorAlign (min_addr m + size div 2)
                in [\<lparr>label = ''Range 1'', rmin = min_addr m, rmax = mid - 4\<rparr>,
                    \<lparr>label = ''Range 2'', rmin = mid, rmax = max_addr m\<rparr>])
           | Dual m1 m2 \<Rightarrow> [])
        else if rangeMode cfg = ''quarter'' then
          (case memoryRange cfg of
             Single m \<Rightarrow>
               (let size = max_addr m - min_addr m + 1;
                    step = size div 4;
                    q1 = floorAlign (min_addr m + step);
                    q2 = floorAlign (min_addr m + step * 2);
                    q3 = floorAlign (min_addr m + step * 3)
                in [\<lparr>label = ''Range 1'', rmin = min_addr m, rmax = q1 - 4\<rparr>,
                    \<lparr>label = ''Range 2'', rmin = q1, rmax = q2 - 4\<rparr>,
                    \<lparr>label = ''Range 3'', rmin = q2, rmax = q3 - 4\<rparr>,
                    \<lparr>label = ''Range 4'', rmin = q3, rmax = max_addr m\<rparr>])
           | Dual m1 m2 \<Rightarrow> [])
        else if rangeMode cfg = ''wii'' then
          (case memoryRange cfg of
             Single m \<Rightarrow> []
           | Dual mem1 mem2 \<Rightarrow>
               (let mem1Size = max_addr mem1 - min_addr mem1 + 1;
                    mem1Mid = floorAlign (min_addr mem1 + mem1Size div 2);
                    mem2Size = max_addr mem2 - min_addr mem2 + 1;
                    mem2Mid = floorAlign (min_addr mem2 + mem2Size div 2)
                in [\<lparr>label = ''Range 1 (MEM1 Low)'', rmin = min_addr mem1, rmax = mem1Mid - 4\<rparr>,
                    \<lparr>label = ''Range 2 (MEM1 High)'', rmin = mem1Mid, rmax = max_addr mem1\<rparr>,
                    \<lparr>label = ''Range 3 (MEM2 Low)'', rmin = min_addr mem2, rmax = mem2Mid - 4\<rparr>,
                    \<lparr>label = ''Range 4 (MEM2 High)'', rmin = mem2Mid, rmax = max_addr mem2\<rparr>]))
        else [])"

text \<open>
  \<open>Config.getAddressRangeIndex\<close> and \<open>Preprocessor._getRangeIndex\<close> run the same loop:
  the index of the first range that holds the address, \<open>-1\<close> when none does.
\<close>

fun rangeIndexFrom :: "int \<Rightarrow> scan_range list \<Rightarrow> int \<Rightarrow> int" where
  "rangeIndexFrom i [] address = -1"
| "rangeIndexFrom i (r # rs) address =
     (if address \<ge> rmin r \<and> address \<le> rmax r then i else rangeIndexFrom (i + 1) rs address)"

definition getRangeIndex :: "scan_range list \<Rightarrow> int \<Rightarrow> int" where
  "getRangeIndex ranges address = rangeIndexFrom 0 ranges address"

definition getAddressRangeIndex :: "string \<Rightarrow> int \<Rightarrow> int" where
  "getAddressRangeIndex systemId address = getRangeIndex (getRanges systemId) address"

text \<open>
  The memory range the catalogue gives a system, as the list of its regions
  (one region, or two for a dual-region system).
\<close>

definition regions :: "system_config \<Rightarrow> mem_range list" where
  "regions cfg = (case memoryRange cfg of Single m \<Rightarrow> [m] | Dual m1 m2 \<Rightarrow> [m1, m2])"

text \<open>
  A range list is chained from \<open>lo\<close> to \<open>hi\<close> when it is not empty, starts at \<open>lo\<close>, ends
  at \<open>hi\<close>, no range is empty, and each range starts four bytes after the end of the one
  before it.
\<close>

fun chained :: "int \<Rightarrow> int \<Rightarrow> scan_range list \<Rightarrow> bool" where
  "chained lo hi [] = False"
| "chained lo hi [r] = (rmin r = lo \<and> rmax r = hi \<and> lo \<le> hi)"
| "chained lo hi (r # r' # rs) =
     (rmin r = lo \<and> lo \<le> rmax r \<and> chained (rmax r + 4) hi (r' # rs))"

text \<open>The ranges of the list that hold a given address.\<close>

definition holders :: "scan_range list \<Rightarrow> int \<Rightarrow> scan_range list" where
  "holders rs a = filter (\<lambda>r. rmin r \<le> a \<and> a \<le> rmax r) rs"


section \<open>Preprocessor (js/list-detector.js, class Preprocessor)\<close>

text \<open>
  \<open>nodeMap\<close> is a JavaScript \<open>Map\<close> from address to \<open>Int32Array (maxBatches)\<close>: an
  association list in insertion order, whose slot arrays are lists of 32-bit words
  (storing a number into an \<open>Int32Array\<close> keeps its low 32 bits). The CSV parser pushes
  an address and a value for every row it keeps, so the two arrays of a parsed batch
  have the same length and the rows of a batch are the pairs of \<open>zip\<close>.
\<close>

datatype error = UnknownSystem | SystemNotSet | BatchLimitExceeded | InvalidBatchIndex

datatype classification = StaticStatic | StaticNode | DynamicNode

record range_count =
  rc_label :: string
  rc_min :: int
  rc_max :: int
  rc_staticNodes :: nat
  rc_staticStatics :: nat

text \<open>The warning text only interpolates \<open>range1Total\<close>; the model keeps that number.\<close>

record recommendation =
  skipSticky :: bool
  activeRangeIndex :: nat
  warning :: "nat option"

record counts =
  c_batchCount :: nat
  totalNodes :: nat
  staticStatics :: nat
  staticNodes :: nat
  dynamicNodes :: nat
  ranges :: "range_count list"
  recommendation :: recommendation

record parsedBatch =
  addresses :: "int list"
  vals :: "int list"

type_synonym slots = "32 word list"

record preprocessor =
  systemId :: "string option"
  batchCount :: nat
  maxBatches :: nat
  nodeMap :: "(int \<times> slots) list"
  countsCache :: "counts option"

definition newPreprocessor :: preprocessor where
  "newPreprocessor =
     \<lparr>systemId = None, batchCount = 0, maxBatches = maxFiles, nodeMap = [], countsCache = None\<rparr>"

definition reset :: "preprocessor \<Rightarrow> preprocessor" where
  "reset st = st\<lparr>systemId := None, batchCount := 0, nodeMap := [], countsCache := None\<rparr>"

definition setSystem :: "string \<Rightarrow> preprocessor \<Rightarrow> error + preprocessor" where
  "setSystem sid st =
     (if \<not> isValidSystem sid then Inl UnknownSystem
      else if systemId st \<noteq> Some sid then Inr ((reset st)\<lparr>systemId := Some sid\<rparr>)
      else Inr st)"

text \<open>\<open>_classify\<close>: the loop over slots \<open>0 .. batchCount - 1\<close>, which stops at the first zero.\<close>

fun classifyLoop :: "slots \<Rightarrow> 32 word \<Rightarrow> bool \<Rightarrow> bool \<times> bool" where
  "classifyLoop [] firstValue allSameValue = (False, allSameValue)"
| "classifyLoop (v # vs) firstValue allSameValue =
     (if v = 0 then (True, allSameValue)
      else if firstValue = 0 then classifyLoop vs v allSameValue
      else if v \<noteq> firstValue then classifyLoop vs firstValue False
      else classifyLoop vs firstValue allSameValue)"

definition classify :: "nat \<Rightarrow> slots \<Rightarrow> classification" where
  "classify n sl =
     (case classifyLoop (take n sl) 0 True of
        (zeroFound, allSameValue) \<Rightarrow>
          if zeroFound then DynamicNode
          else if allSameValue then StaticStatic
          else StaticNode)"

definition buildRecommendation ::
  "string option \<Rightarrow> range_count list \<Rightarrow> nat \<Rightarrow> nat \<Rightarrow> recommendation" where
  "buildRecommendation sid rangeCounts totalStaticNodes totalStaticStatics =
     (let cfg = (case sid of None \<Rightarrow> None | Some s \<Rightarrow> getSystemConfig s);
          warnMax = warnBasePointerThreshold;
          mode = (case cfg of None \<Rightarrow> ''half'' | Some c \<Rightarrow> rangeMode c)
      in if mode = ''full'' then \<lparr>skipSticky = False, activeRangeIndex = 0, warning = None\<rparr>
         else
           (let range1Total =
                  (case rangeCounts of [] \<Rightarrow> 0 | r # _ \<Rightarrow> rc_staticNodes r + rc_staticStatics r)
            in \<lparr>skipSticky = True, activeRangeIndex = 0,
                warning = (if range1Total > warnMax then Some range1Total else None)\<rparr>))"

fun bumpRange :: "classification \<Rightarrow> range_count \<Rightarrow> range_count" where
  "bumpRange StaticStatic rc = rc\<lparr>rc_staticStatics := rc_staticStatics rc + 1\<rparr>"
| "bumpRange StaticNode rc = rc\<lparr>rc_staticNodes := rc_staticNodes rc + 1\<rparr>"
| "bumpRange DynamicNode rc = rc"

text \<open>One iteration of the loop of \<open>getCounts\<close> over \<open>nodeMap\<close>.\<close>

definition countStep ::
  "nat \<Rightarrow> scan_range list \<Rightarrow> int \<times> slots \<Rightarrow> nat \<times> nat \<times> nat \<times> range_count list
     \<Rightarrow> nat \<times> nat \<times> nat \<times> range_count list" where
  "countStep n rngs node acc =
     (case acc of (totalStaticStatics, totalStaticNodes, totalDynamic, rangeCounts) \<Rightarrow>
        (let cls = classify n (snd node);
             ri = getRangeIndex rngs (fst node)
         in (if cls = StaticStatic then totalStaticStatics + 1 else totalStaticStatics,
             if cls = StaticNode then totalStaticNodes + 1 else totalStaticNodes,
             if cls = DynamicNode then totalDynamic + 1 else totalDynamic,
             if ri \<ge> 0 then rangeCounts[nat ri := bumpRange cls (rangeCounts ! nat ri)]
             else rangeCounts)))"

definition computeCounts :: "preprocessor \<Rightarrow> counts" where
  "computeCounts st =
     (let sid = (case systemId st of None \<Rightarrow> ''n64'' | Some s \<Rightarrow> s);
          rngs = getRanges sid;
          rangeCounts0 = map (\<lambda>r. \<lparr>rc_label = label r, rc_min = rmin r, rc_max = rmax r,
                                    rc_staticNodes = 0, rc_staticStatics = 0\<rparr>) rngs
      in case fold (countStep (batchCount st) rngs) (nodeMap st) (0, 0, 0, rangeCounts0) of
           (totalStaticStatics, totalStaticNodes, totalDynamic, rangeCounts) \<Rightarrow>
             \<lparr>c_batchCount = batchCount st,
              totalNodes = length (nodeMap st),
              staticStatics = totalStaticStatics,
              staticNodes = totalStaticNodes,
              dynamicNodes = totalDynamic,
              ranges = rangeCounts,
              recommendation =
                buildRecommendation (systemId st) rangeCounts totalStaticNodes totalStaticStatics\<rparr>)"

text \<open>\<open>getCounts\<close> answers from \<open>_countsCache\<close> when it is set, and sets it otherwise.\<close>

definition getCounts :: "preprocessor \<Rightarrow> counts \<times> preprocessor" where
  "getCounts st =
     (case countsCache st of
        Some c \<Rightarrow> (c, st)
      | None \<Rightarrow> (let c = computeCounts st in (c, st\<lparr>countsCache := Some c\<rparr>)))"

text \<open>Pass 1 of \<open>addBatch\<close>: the frequency of every value of the batch.\<close>

definition valueFreq :: "int list \<Rightarrow> int \<Rightarrow> nat" where
  "valueFreq vs = fold (\<lambda>v freq. freq(v := freq v + 1)) vs (\<lambda>_. 0)"

definition vtableValues :: "int list \<Rightarrow> int \<Rightarrow> bool" where
  "vtableValues vs v = (valueFreq vs v > 10)"

text \<open>\<open>(mask !== null) ? (val & mask) >>> 0 : val\<close>.\<close>

definition maskedVal :: "int option \<Rightarrow> int \<Rightarrow> int" where
  "maskedVal m val =
     (case m of None \<Rightarrow> val
      | Some mk \<Rightarrow> uint ((word_of_int val :: 32 word) AND word_of_int mk))"

definition storeRow :: "nat \<Rightarrow> nat \<Rightarrow> int \<Rightarrow> int \<Rightarrow> (int \<times> slots) list \<Rightarrow> (int \<times> slots) list" where
  "storeRow maxB batchIndex addr val nm =
     (case map_of nm addr of
        None \<Rightarrow> AList.update addr ((replicate maxB 0)[batchIndex := word_of_int val]) nm
      | Some sl \<Rightarrow> AList.update addr (sl[batchIndex := word_of_int val]) nm)"

definition addRow ::
  "int option \<Rightarrow> (int \<Rightarrow> bool) \<Rightarrow> nat \<Rightarrow> nat \<Rightarrow> int \<times> int \<Rightarrow> (int \<times> slots) list
     \<Rightarrow> (int \<times> slots) list" where
  "addRow m vtable maxB batchIndex row nm =
     (let addr = fst row; val = snd row
      in if vtable val then nm
         else (let diff = addr - maskedVal m val
               in if diff \<ge> -44 \<and> diff \<le> 4 then nm
                  else storeRow maxB batchIndex addr val nm))"

definition addBatch :: "parsedBatch \<Rightarrow> preprocessor \<Rightarrow> error + (counts \<times> preprocessor)" where
  "addBatch parsed st =
     (case systemId st of
        None \<Rightarrow> Inl SystemNotSet
      | Some sid \<Rightarrow>
          if batchCount st \<ge> maxBatches st then Inl BatchLimitExceeded
          else
            (let batchIndex = batchCount st;
                 m = getSystemMask sid;
                 vtable = vtableValues (vals parsed);
                 nm = fold (addRow m vtable (maxBatches st) batchIndex)
                        (zip (addresses parsed) (vals parsed)) (nodeMap st)
             in Inr (getCounts (st\<lparr>nodeMap := nm, batchCount := batchCount st + 1,
                                     countsCache := None\<rparr>))))"

text \<open>
  \<open>removeBatch\<close>: every slot above the removed index moves down by one, the last slot
  becomes zero, and an address whose first \<open>newCount\<close> slots are all zero is deleted.
\<close>

definition shiftSlots :: "nat \<Rightarrow> nat \<Rightarrow> slots \<Rightarrow> slots" where
  "shiftSlots maxB batchIndex sl =
     (fold (\<lambda>b s. s[b := s ! (b + 1)]) [batchIndex ..< maxB - 1] sl)[maxB - 1 := 0]"

definition anyNonZero :: "nat \<Rightarrow> slots \<Rightarrow> bool" where
  "anyNonZero newCount sl = (\<exists>v \<in> set (take newCount sl). v \<noteq> 0)"

definition removeBatch :: "int \<Rightarrow> preprocessor \<Rightarrow> error + (counts \<times> preprocessor)" where
  "removeBatch batchIndex st =
     (if batchIndex < 0 \<or> batchIndex \<ge> int (batchCount st) then Inl InvalidBatchIndex
      else
        (let newCount = batchCount st - 1;
             shifted = map (\<lambda>(addr, sl). (addr, shiftSlots (maxBatches st) (nat batchIndex) sl))
                         (nodeMap st);
             nm = filter (\<lambda>(addr, sl). anyNonZero newCount sl) shifted
         in Inr (getCounts (st\<lparr>nodeMap := nm, batchCount := newCount, countsCache := None\<rparr>))))"

text \<open>
  \<open>collapse\<close>. The source writes each node into one of three arrays at the running
  indices \<open>ssIdx\<close>, \<open>snIdx\<close> and \<open>dynIdx\<close>; the model keeps the entries written, in order, so
  that the lengths of the three lists are those tallies. Addresses and values are
  stored in \<open>Int32Array\<close>s and read back as signed 32-bit integers.
\<close>

record collapsed =
  col_systemId :: "string option"
  col_batchCount :: nat
  col_staticStatics :: "(int \<times> int) list"
  col_staticNodes :: "(int \<times> int list) list"
  col_dynamicNodes :: "(int \<times> int list) list"

definition maskSlots :: "int option \<Rightarrow> nat \<Rightarrow> slots \<Rightarrow> slots" where
  "maskSlots m n sl =
     (case m of None \<Rightarrow> sl
      | Some mk \<Rightarrow>
          map (\<lambda>(b, v). if b < n \<and> v \<noteq> 0 then v AND word_of_int mk else v)
            (zip [0 ..< length sl] sl))"

definition firstNonZero :: "nat \<Rightarrow> slots \<Rightarrow> 32 word" where
  "firstNonZero n sl = (case filter (\<lambda>v. v \<noteq> 0) (take n sl) of [] \<Rightarrow> 0 | v # _ \<Rightarrow> v)"

definition toInt32 :: "int \<Rightarrow> int" where
  "toInt32 x = sint (word_of_int x :: 32 word)"

definition collapseStep ::
  "int option \<Rightarrow> nat \<Rightarrow> int \<times> slots
     \<Rightarrow> (int \<times> int) list \<times> (int \<times> int list) list \<times> (int \<times> int list) list
     \<Rightarrow> (int \<times> int) list \<times> (int \<times> int list) list \<times> (int \<times> int list) list" where
  "collapseStep m n node acc =
     (case acc of (ss, sn, dyn) \<Rightarrow>
        (let addr = fst node;
             sl = maskSlots m n (snd node);
             cls = classify n sl
         in if cls = StaticStatic then (ss @ [(toInt32 addr, sint (firstNonZero n sl))], sn, dyn)
            else if cls = StaticNode then (ss, sn @ [(toInt32 addr, map sint (take n sl))], dyn)
            else (ss, sn, dyn @ [(toInt32 addr, map sint (take n sl))])))"

definition collapse :: "preprocessor \<Rightarrow> collapsed \<times> preprocessor" where
  "collapse st =
     (case getCounts st of (cnts, st1) \<Rightarrow>
        (let m = (case systemId st1 of None \<Rightarrow> None | Some s \<Rightarrow> getSystemMask s);
             n = batchCount st1
         in case fold (collapseStep m n) (nodeMap st1) ([], [], []) of
              (ss, sn, dyn) \<Rightarrow>
                (\<lparr>col_systemId = systemId st1, col_batchCount = n, col_staticStatics = ss,
                  col_staticNodes = sn, col_dynamicNodes = dyn\<rparr>,
                 st1\<lparr>nodeMap := [], countsCache := None\<rparr>)))"

text \<open>
  \<open>CoreUtils.validateCsvRow\<close>, the part that decides on the value of a row: 4-byte
  alignment, then the memory range of the system. A comparison with the missing bound
  of a range of the other shape is a comparison with \<open>undefined\<close>, which is false.
\<close>

definition inRangeSpec :: "mem_range \<Rightarrow> int \<Rightarrow> bool" where
  "inRangeSpec rangeSpec v = (\<not> (v < min_addr rangeSpec + 1 \<or> v > max_addr rangeSpec))"

definition validateValue :: "string \<Rightarrow> int \<Rightarrow> bool" where
  "validateValue sid v =
     (if (word_of_int v :: 32 word) AND word_of_int alignmentMask \<noteq> 0 then False
      else case getSystemConfig sid of
             None \<Rightarrow> True
           | Some cfg \<Rightarrow>
               (case memoryRange cfg of
                  Dual mem1 mem2 \<Rightarrow>
                    if dualRange cfg then
                      (if (word_of_int v :: 32 word) AND 0x80000000 = 0 then False
                       else (let isInMem1 = ((word_of_int v :: 32 word) AND 0x10000000 = 0)
                             in inRangeSpec (if isInMem1 then mem1 else mem2) v))
                    else True
                | Single rangeSpec \<Rightarrow> inRangeSpec rangeSpec v))"

definition parserValidated :: "string \<Rightarrow> parsedBatch \<Rightarrow> bool" where
  "parserValidated sid parsed =
     (length (addresses parsed) = length (vals parsed)
      \<and> (\<forall>v \<in> set (vals parsed). validateValue sid v))"

text \<open>
  The states of a preprocessor: \<open>setSystem\<close> on a fresh instance, then any sequence of
  \<open>addBatch\<close> (on parser-validated batches of that system), \<open>removeBatch\<close> and
  \<open>getCounts\<close> calls that return.
\<close>

inductive reachable :: "string \<Rightarrow> preprocessor \<Rightarrow> bool" where
  start: "setSystem sid newPreprocessor = Inr st \<Longrightarrow> reachable sid st"
| add: "reachable sid st \<Longrightarrow> parserValidated sid parsed \<Longrightarrow> addBatch parsed st = Inr (c, st')
        \<Longrightarrow> reachable sid st'"
| remove: "reachable sid st \<Longrightarrow> removeBatch i st = Inr (c, st') \<Longrightarrow> reachable sid st'"
| counts: "reachable sid st \<Longrightarrow> getCounts st = (c, st') \<Longrightarrow> reachable sid st'"

text \<open>Adding a list of batches one after the other; the first call that throws ends the run.\<close>

fun addAll :: "parsedBatch list \<Rightarrow> preprocessor \<Rightarrow> error + preprocessor" where
  "addAll [] st = Inr st"
| "addAll (b # bs) st =
     (case addBatch b st of Inl e \<Rightarrow> Inl e | Inr (c, st') \<Rightarrow> addAll bs st')"


section \<open>Predicates used in the statements and proofs\<close>

text \<open>A stored slot value is valid when it is the 32-bit image of a value the parser accepts.\<close>

definition storedValid :: "string \<Rightarrow> 32 word \<Rightarrow> bool" where
  "storedValid sid w = (\<exists>v. validateValue sid v \<and> w = word_of_int v)"

definition slotsOk :: "string \<Rightarrow> preprocessor \<Rightarrow> bool" where
  "slotsOk sid st =
     (\<forall>node \<in> set (nodeMap st).
        length (snd node) = maxBatches st
        \<and> (\<forall>w \<in> set (snd node). w = 0 \<or> storedValid sid w))"

definition cacheOk :: "preprocessor \<Rightarrow> bool" where
  "cacheOk st = (countsCache st = None \<or> countsCache st = Some (computeCounts st))"

definition prepInv :: "string \<Rightarrow> preprocessor \<Rightarrow> bool" where
  "prepInv sid st =
     (systemId st = Some sid \<and> isValidSystem sid \<and> maxBatches st = maxFiles
      \<and> batchCount st \<le> maxBatches st \<and> cacheOk st \<and> slotsOk sid st)"

definition regionBounds :: "system_config \<Rightarrow> bool" where
  "regionBounds cfg =
     (case memoryRange cfg of
        Single m \<Rightarrow> 0 \<le> min_addr m \<and> max_addr m < 4294967296
      | Dual m1 m2 \<Rightarrow> dualRange cfg \<and> 0 \<le> min_addr m1 \<and> max_addr m1 < 4294967296
                     \<and> 0 \<le> min_addr m2 \<and> max_addr m2 < 4294967296)"

text \<open>The masking that \<open>collapse\<close> applies to one slot.\<close>

definition maskSlot :: "int \<Rightarrow> 32 word \<Rightarrow> 32 word" where
  "maskSlot mk v = (if v \<noteq> 0 then v AND word_of_int mk else v)"

definition nodesOk :: "string \<Rightarrow> nat \<Rightarrow> (int \<times> slots) list \<Rightarrow> bool" where
  "nodesOk sid maxB nm =
     (\<forall>node \<in> set nm. length (snd node) = maxB
        \<and> (\<forall>w \<in> set (snd node). w = 0 \<or> storedValid sid w))"

definition withCache :: "preprocessor \<Rightarrow> preprocessor" where
  "withCache st = st\<lparr>countsCache := Some (computeCounts st)\<rparr>"

definition ps1Empty :: preprocessor where
  "ps1Empty = \<lparr>systemId = Some ''ps1'', batchCount = 0, maxBatches = 10, nodeMap = [],
               countsCache = None\<rparr>"

definition batchA :: parsedBatch where
  "batchA = \<lparr>addresses = [0x1000, 0x1004, 0x1008],
             vals = [0x80002000, 0x80003000, 0x80004000]\<rparr>"

definition batchB :: parsedBatch where
  "batchB = \<lparr>addresses = [0x1000, 0x1004], vals = [0x80002000, 0x80003004]\<rparr>"

definition ps1One :: preprocessor where
  "ps1One = \<lparr>systemId = Some ''ps1'', batchCount = 1, maxBatches = 10,
       nodeMap = [(0x1000, [0x80002000, 0, 0, 0, 0, 0, 0, 0, 0, 0]),
                  (0x1004, [0x80003000, 0, 0, 0, 0, 0, 0, 0, 0, 0]),
                  (0x1008, [0x80004000, 0, 0, 0, 0, 0, 0, 0, 0, 0])],
       countsCache = None\<rparr>"

definition ps1Two :: preprocessor where
  "ps1Two = \<lparr>systemId = Some ''ps1'', batchCount = 2, maxBatches = 10,
       nodeMap = [(0x1000, [0x80002000, 0x80002000, 0, 0, 0, 0, 0, 0, 0, 0]),
                  (0x1004, [0x80003000, 0x80003004, 0, 0, 0, 0, 0, 0, 0, 0]),
                  (0x1008, [0x80004000, 0, 0, 0, 0, 0, 0, 0, 0, 0])],
       countsCache = None\<rparr>"

definition gbaEmpty :: preprocessor where
  "gbaEmpty = \<lparr>systemId = Some ''gba'', batchCount = 0, maxBatches = 10, nodeMap = [],
               countsCache = None\<rparr>"

definition keptRow :: "int option \<Rightarrow> (int \<Rightarrow> bool) \<Rightarrow> int \<times> int \<Rightarrow> bool" where
  "keptRow m vt row =
     (\<not> vt (snd row)
      \<and> \<not> (fst row - maskedVal m (snd row) \<ge> -44 \<and> fst row - maskedVal m (snd row) \<le> 4))"

definition lastKept :: "int option \<Rightarrow> (int \<Rightarrow> bool) \<Rightarrow> (int \<times> int) list \<Rightarrow> int \<Rightarrow> 32 word \<Rightarrow> 32 word" where
  "lastKept m vt rows a w0 =
     fold (\<lambda>row acc. if keptRow m vt row \<and> fst row = a then word_of_int (snd row) else acc)
       rows w0"

definition batchSlot :: "string \<Rightarrow> parsedBatch \<Rightarrow> int \<Rightarrow> 32 word" where
  "batchSlot sid B a =
     lastKept (getSystemMask sid) (vtableValues (vals B)) (zip (addresses B) (vals B)) a 0"

definition slotOf :: "(int \<times> slots) list \<Rightarrow> int \<Rightarrow> nat \<Rightarrow> 32 word" where
  "slotOf nm a b = (case map_of nm a of None \<Rightarrow> 0 | Some sl \<Rightarrow> sl ! b)"

definition lengthsOk :: "nat \<Rightarrow> (int \<times> slots) list \<Rightarrow> bool" where
  "lengthsOk maxB nm = (\<forall>node \<in> set nm. length (snd node) = maxB)"

definition classOfSet :: "32 word set \<Rightarrow> classification" where
  "classOfSet S =
     (if 0 \<in> S then DynamicNode
      else if (\<forall>x \<in> S. \<forall>y \<in> S. x = y) then StaticStatic
      else StaticNode)"

definition rep :: "string \<Rightarrow> parsedBatch list \<Rightarrow> preprocessor \<Rightarrow> bool" where
  "rep sid bs st =
     (systemId st = Some sid \<and> batchCount st = length bs \<and> maxBatches st = maxFiles
      \<and> length bs \<le> maxFiles \<and> cacheOk st
      \<and> distinct (map fst (nodeMap st)) \<and> lengthsOk maxFiles (nodeMap st)
      \<and> fst ` set (nodeMap st) = {a. \<exists>B \<in> set bs. batchSlot sid B a \<noteq> 0}
      \<and> (\<forall>a b. b < maxFiles \<longrightarrow>
             slotOf (nodeMap st) a b = (if b < length bs then batchSlot sid (bs ! b) a else 0)))"

text \<open>
  A chain as \<open>walkChainsAtOffset\<close> returns it, and an entry point (a chain that walked
  into the target pool).
\<close>

record chain =
  nodes :: "int list"
  ghosts :: "int list"
  isHead :: bool

record walk_entry =
  we_nodes :: "int list"
  we_ghosts :: "int list"

text \<open>
  The options. \<open>minChainLength\<close> has no default, so that it is \<open>undefined\<close> when the
  caller leaves it out (\<open>None\<close>); \<open>maxGhostNodes\<close> defaults to 0 and \<open>targetPool\<close> to \<open>null\<close>.
\<close>

record walk_opts =
  minChainLength :: "int option"
  maxGhostNodes :: int
  targetPool :: "int set option"

text \<open>
  The pool is a JavaScript \<open>Set\<close>: the list of its elements in insertion order, which is
  the order of iteration. The first loop collects the pool addresses some pool node
  points to at this offset.
\<close>

definition pointedTo :: "int list \<Rightarrow> int \<Rightarrow> (int \<Rightarrow> int option) \<Rightarrow> int set" where
  "pointedTo pool offset getVal =
     fold (\<lambda>addr acc.
             case getVal addr of
               None \<Rightarrow> acc
             | Some val \<Rightarrow> (let child = val + offset
                            in if child \<in> set pool then insert child acc else acc))
       pool {}"

text \<open>
  The bridging loop \<open>for (g = 0; g < maxGhostNodes; g++)\<close>: the result is
  \<open>(foundBridgeTarget, newGhostCount)\<close>, or \<open>None\<close> when the loop ends with
  \<open>foundBridgeTarget === null\<close>.
\<close>

function findBridge :: "int list \<Rightarrow> int \<Rightarrow> int \<Rightarrow> int \<Rightarrow> int \<Rightarrow> (int \<times> int) option" where
  "findBridge pool offset maxGhost g bridgeAddr =
     (if g < maxGhost then
        (let afterBridge = bridgeAddr + offset
         in if afterBridge \<in> set pool then Some (afterBridge, g + 1)
            else findBridge pool offset maxGhost (g + 1) (bridgeAddr + offset))
      else None)"
  by pat_completeness auto
termination
  by (relation "measure (\<lambda>(pool, offset, maxGhost, g, bridgeAddr). nat (maxGhost - g))") auto

text \<open>
  The loop \<open>chainLoop: while (true)\<close>. It has no bound of its own, so the model is a
  partial function: \<open>None\<close> stands for a walk that does not return. The result is
  \<open>(nodes, ghosts, hitTarget)\<close>.
\<close>

partial_function (option) chainLoop ::
  "int list \<Rightarrow> int \<Rightarrow> (int \<Rightarrow> int option) \<Rightarrow> int \<Rightarrow> int set option
     \<Rightarrow> int list \<Rightarrow> int list \<Rightarrow> int set \<Rightarrow> int \<Rightarrow> int \<Rightarrow> (int list \<times> int list \<times> bool) option" where
  "chainLoop pool offset getVal maxGhost target nodes_acc ghosts_acc visited current totalGhosts =
     (if current \<in> visited then Some (nodes_acc, ghosts_acc, False)
      else if (case target of None \<Rightarrow> False | Some tp \<Rightarrow> current \<in> tp)
        then Some (nodes_acc, ghosts_acc, True)
      else if current \<notin> set pool then Some (nodes_acc, ghosts_acc, False)
      else
        (case getVal current of
           None \<Rightarrow> Some (nodes_acc, ghosts_acc, False)
         | Some val \<Rightarrow>
             (let expected = val + offset
              in if expected \<in> set pool then
                   chainLoop pool offset getVal maxGhost target (nodes_acc @ [current]) ghosts_acc
                     (insert current visited) expected totalGhosts
                 else if maxGhost = 0 then Some (nodes_acc @ [current], ghosts_acc, False)
                 else
                   (case findBridge pool offset maxGhost 0 expected of
                      None \<Rightarrow> Some (nodes_acc @ [current], ghosts_acc, False)
                    | Some (foundBridgeTarget, newGhostCount) \<Rightarrow>
                        if totalGhosts + newGhostCount > maxGhost
                        then Some (nodes_acc @ [current], ghosts_acc, False)
                        else
                          chainLoop pool offset getVal maxGhost target (nodes_acc @ [current])
                            (ghosts_acc
                               @ map (\<lambda>k. expected + int k * offset) [0 ..< nat newGhostCount])
                            (insert current visited) foundBridgeTarget
                            (totalGhosts + newGhostCount)))))"

declare findBridge.simps [simp del]

declare chainLoop.simps [code]

text \<open>One iteration of the loop over the start addresses.\<close>

definition walkStep ::
  "int list \<Rightarrow> int \<Rightarrow> (int \<Rightarrow> int option) \<Rightarrow> walk_opts \<Rightarrow> int set \<Rightarrow> int
     \<Rightarrow> chain list \<times> walk_entry list \<times> int set
     \<Rightarrow> (chain list \<times> walk_entry list \<times> int set) option" where
  "walkStep pool offset getVal opts pointed startAddr acc =
     (case acc of (chs, entryPoints, processed) \<Rightarrow>
        if startAddr \<in> processed then Some acc
        else if startAddr \<in> pointed then Some acc
        else if getVal startAddr = None then Some acc
        else
          (case chainLoop pool offset getVal (maxGhostNodes opts) (targetPool opts)
                  [] [] {} startAddr 0 of
             None \<Rightarrow> None
           | Some (ns, gs, hitTarget) \<Rightarrow>
               (let processed' = processed \<union> set ns
                in if hitTarget \<and> length ns \<ge> 1 then
                     Some (chs, entryPoints @ [\<lparr>we_nodes = ns, we_ghosts = gs\<rparr>], processed')
                   else if (case minChainLength opts of
                              None \<Rightarrow> False | Some k \<Rightarrow> int (length ns) \<ge> k) then
                     Some (chs @ [\<lparr>nodes = ns, ghosts = gs, isHead = True\<rparr>], entryPoints,
                           processed')
                   else Some (chs, entryPoints, processed'))))"

fun walkFrom ::
  "int list \<Rightarrow> int \<Rightarrow> (int \<Rightarrow> int option) \<Rightarrow> walk_opts \<Rightarrow> int set \<Rightarrow> int list
     \<Rightarrow> chain list \<times> walk_entry list \<times> int set
     \<Rightarrow> (chain list \<times> walk_entry list \<times> int set) option" where
  "walkFrom pool offset getVal opts pointed [] acc = Some acc"
| "walkFrom pool offset getVal opts pointed (startAddr # rest) acc =
     (case walkStep pool offset getVal opts pointed startAddr acc of
        None \<Rightarrow> None
      | Some acc' \<Rightarrow> walkFrom pool offset getVal opts pointed rest acc')"

definition walkChainsAtOffset ::
  "int list \<Rightarrow> int \<Rightarrow> (int \<Rightarrow> int option) \<Rightarrow> walk_opts
     \<Rightarrow> (chain list \<times> walk_entry list) option" where
  "walkChainsAtOffset pool offset getVal opts =
     (case walkFrom pool offset getVal opts (pointedTo pool offset getVal) pool ([], [], {}) of
        None \<Rightarrow> None
      | Some (chs, entryPoints, processed) \<Rightarrow> Some (chs, entryPoints))"

text \<open>
  \<open>resolveChainConflicts\<close>. \<open>nodeToChains\<close> maps a node to the indexes of the chs that
  contain it, in ascending order, once for every occurrence.
\<close>

definition nodeToChains :: "chain list \<Rightarrow> int \<Rightarrow> nat list" where
  "nodeToChains chs node =
     concat (map (\<lambda>i. map (\<lambda>_. i) (filter (\<lambda>x. x = node) (nodes (chs ! i))))
               [0 ..< length chs])"

text \<open>\<open>conflicts\<close> is a \<open>Set\<close>: the indexes in the order of their first insertion.\<close>

definition conflicts :: "chain list \<Rightarrow> nat \<Rightarrow> nat list" where
  "conflicts chs i =
     fold (\<lambda>node acc.
             fold (\<lambda>ci acc'. if ci \<noteq> i \<and> ci \<notin> set acc' then acc' @ [ci] else acc')
               (nodeToChains chs node) acc)
       (nodes (chs ! i)) []"

text \<open>
  The comparator of \<open>group.sort\<close> orders by node count, descending, and then by the first
  node, ascending: the lexicographic order of the pairs \<open>(- length, nodes[0])\<close>.
  \<open>Array.prototype.sort\<close> is stable, and so is \<open>sort_key\<close>. The comparator reads
  \<open>nodes[0]\<close> of an empty chain only if it is called, which needs a group of two chs,
  and chs of a group share a node; the model takes 0 there.
\<close>

definition chainKey :: "chain \<Rightarrow> int \<times> int" where
  "chainKey c = (- int (length (nodes c)), (case nodes c of [] \<Rightarrow> 0 | r # _ \<Rightarrow> r))"

definition sortGroup :: "(nat \<times> chain) list \<Rightarrow> (nat \<times> chain) list" where
  "sortGroup grp = sort_key (\<lambda>p. chainKey (snd p)) grp"

text \<open>The loop over the ranks of a sorted group.\<close>

definition pushRanked ::
  "(nat \<times> nat \<times> chain) \<Rightarrow> chain list \<times> nat set \<Rightarrow> chain list \<times> nat set" where
  "pushRanked entry acc =
     (case entry of (rank, idx, c) \<Rightarrow>
        case acc of (resolved, processed) \<Rightarrow>
          if idx \<notin> processed then (resolved @ [c\<lparr>isHead := (rank = 0)\<rparr>], insert idx processed)
          else acc)"

definition resolveStep :: "chain list \<Rightarrow> nat \<Rightarrow> chain list \<times> nat set \<Rightarrow> chain list \<times> nat set" where
  "resolveStep chs i acc =
     (if i \<in> snd acc then acc
      else
        (let grp = sortGroup (map (\<lambda>idx. (idx, chs ! idx)) (i # conflicts chs i))
         in fold pushRanked (zip [0 ..< length grp] grp) acc))"

definition resolveChainConflicts :: "chain list \<Rightarrow> chain list" where
  "resolveChainConflicts chs =
     (if length chs = 0 then []
      else if length chs = 1 then chs
      else fst (fold (resolveStep chs) [0 ..< length chs] ([], {})))"

section \<open>Verification\<close>

lemmas catalogue_defs = getRanges_def getSystemConfig_def systems_def floorAlign_def

lemma getRanges_gba:
  "getRanges ''gba'' = [\<lparr>label = ''Range 1'', rmin = 0x02000000, rmax = 0x0203FFFF\<rparr>]"
  by (simp add: catalogue_defs)

lemma getRanges_ps2:
  "getRanges ''ps2'' =
     [\<lparr>label = ''Range 1'', rmin = 0x00100000, rmax = 0x008BFFFC\<rparr>,
      \<lparr>label = ''Range 2'', rmin = 0x008C0000, rmax = 0x0107FFFC\<rparr>,
      \<lparr>label = ''Range 3'', rmin = 0x01080000, rmax = 0x0183FFFC\<rparr>,
      \<lparr>label = ''Range 4'', rmin = 0x01840000, rmax = 0x01FFFFFF\<rparr>]"
  by (simp add: catalogue_defs)

lemma getRanges_psp:
  "getRanges ''psp'' =
     [\<lparr>label = ''Range 1'', rmin = 0x08000000, rmax = 0x087FFFFC\<rparr>,
      \<lparr>label = ''Range 2'', rmin = 0x08800000, rmax = 0x08FFFFFC\<rparr>,
      \<lparr>label = ''Range 3'', rmin = 0x09000000, rmax = 0x097FFFFC\<rparr>,
      \<lparr>label = ''Range 4'', rmin = 0x09800000, rmax = 0x09FFFFFF\<rparr>]"
  by (simp add: catalogue_defs)

lemma getRanges_dsi:
  "getRanges ''dsi'' =
     [\<lparr>label = ''Range 1'', rmin = 0x02000000, rmax = 0x023FFFFC\<rparr>,
      \<lparr>label = ''Range 2'', rmin = 0x02400000, rmax = 0x027FFFFC\<rparr>,
      \<lparr>label = ''Range 3'', rmin = 0x02800000, rmax = 0x02BFFFFC\<rparr>,
      \<lparr>label = ''Range 4'', rmin = 0x02C00000, rmax = 0x02FFFFFF\<rparr>]"
  by (simp add: catalogue_defs)

lemma getRanges_ds: "getRanges ''ds'' = []"
  by (simp add: catalogue_defs)

lemma getRanges_n64:
  "getRanges ''n64'' =
     [\<lparr>label = ''Range 1'', rmin = 0x80000000, rmax = - 2143289348\<rparr>,
      \<lparr>label = ''Range 2'', rmin = - 2143289344, rmax = 0x807FFFFF\<rparr>]"
  by (simp add: catalogue_defs)

text \<open>
  Claim C6, as amended. For the systems whose ranges are computed without a slip
  (\<open>ps2\<close>, \<open>psp\<close>, \<open>gba\<close>, \<open>dsi\<close>: a known range mode and a memory range below
  \<open>2 ^ 31\<close>), \<open>getRanges\<close> returns a list that is not empty, starts at the minimum of the
  memory range and ends at its maximum, with every range starting four bytes after
  the end of the one before it. Every range minimum is a multiple of 4, and every range
  maximum is a multiple of 4 except the last one, which is the maximum of the memory
  range. So every 4-byte-aligned address of the memory range lies in exactly one range.
\<close>

theorem getRanges_cover:
  assumes "sid \<in> {''ps2'', ''psp'', ''gba'', ''dsi''}"
      and "getSystemConfig sid = Some cfg"
      and "memoryRange cfg = Single m"
  shows "chained (min_addr m) (max_addr m) (getRanges sid)
       \<and> (\<forall>r \<in> set (getRanges sid). rmin r mod 4 = 0 \<and> (rmax r mod 4 = 0 \<or> rmax r = max_addr m))
       \<and> (\<forall>a. a mod 4 = 0 \<and> min_addr m \<le> a \<and> a \<le> max_addr m
              \<longrightarrow> length (holders (getRanges sid) a) = 1)"
proof -
  consider "sid = ''ps2''" | "sid = ''psp''" | "sid = ''gba''" | "sid = ''dsi''"
    using assms(1) by auto
  then show ?thesis
  proof cases
    case 1
    have m: "m = \<lparr>min_addr = 0x00100000, max_addr = 0x01FFFFFF\<rparr>"
      using assms(2,3) 1 by (auto simp: getSystemConfig_def systems_def)
    show ?thesis unfolding 1 getRanges_ps2 m holders_def
      by (auto; presburger)
  next
    case 2
    have m: "m = \<lparr>min_addr = 0x08000000, max_addr = 0x09FFFFFF\<rparr>"
      using assms(2,3) 2 by (auto simp: getSystemConfig_def systems_def)
    show ?thesis unfolding 2 getRanges_psp m holders_def
      by (auto; presburger)
  next
    case 3
    have m: "m = \<lparr>min_addr = 0x02000000, max_addr = 0x0203FFFF\<rparr>"
      using assms(2,3) 3 by (auto simp: getSystemConfig_def systems_def)
    show ?thesis unfolding 3 getRanges_gba m holders_def
      by auto
  next
    case 4
    have m: "m = \<lparr>min_addr = 0x02000000, max_addr = 0x02FFFFFF\<rparr>"
      using assms(2,3) 4 by (auto simp: getSystemConfig_def systems_def)
    show ?thesis unfolding 4 getRanges_dsi m holders_def
      by (auto; presburger)
  qed
qed

theorem getRanges_cover_witness:
  "''ps2'' \<in> {''ps2'', ''psp'', ''gba'', ''dsi''}
   \<and> chained 0x00100000 0x01FFFFFF (getRanges ''ps2'')
   \<and> rmin (hd (getRanges ''ps2'')) mod 4 = 0
   \<and> rmax (hd (getRanges ''ps2'')) mod 4 = 0
   \<and> length (holders (getRanges ''ps2'') 0x008C0000) = 1"
  using getRanges_cover[of "''ps2''"
      "\<lparr>name = ''PlayStation 2'', mask_opt = None,
        memoryRange = Single \<lparr>min_addr = 0x00100000, max_addr = 0x01FFFFFF\<rparr>,
        use24Bit = False, dualRange = False, rangeMode = ''quarter''\<rparr>"
      "\<lparr>min_addr = 0x00100000, max_addr = 0x01FFFFFF\<rparr>"]
  by (simp add: getSystemConfig_def systems_def getRanges_ps2)

text \<open>
  Claim C6 as stated fails: the last range of every system ends at the maximum of the
  memory range, which is not a multiple of 4 (here for \<open>gba\<close>); \<open>ds\<close>, whose range mode
  is spelt \<open>quater\<close>, gets no range at all; and for a system at or above \<open>2 ^ 31\<close> (here
  \<open>n64\<close>) the midpoint comes out of the signed 32-bit \<open>&\<close> negative, so that the first
  range ends below its own start.
\<close>

theorem getRanges_counterexample:
  "rmax (last (getRanges ''gba'')) mod 4 = 3
   \<and> getRanges ''ds'' = []
   \<and> rmax (hd (getRanges ''n64'')) < rmin (hd (getRanges ''n64''))"
  by (simp add: getRanges_gba getRanges_ds getRanges_n64)

lemma mod_block:
  fixes v base n :: int
  assumes "base mod n = 0" "base \<le> v" "v < base + n"
  shows "v mod n = v - base"
proof -
  have "v mod n = (base + (v - base)) mod n" by simp
  also have "\<dots> = (base mod n + (v - base)) mod n" by (simp only: mod_add_left_eq)
  also have "\<dots> = (v - base) mod n" using assms(1) by simp
  also have "\<dots> = v - base" using assms(2,3) by (intro mod_pos_pos_trivial) auto
  finally show ?thesis .
qed

lemma uint_and_mask_block:
  fixes v :: int and mk :: "32 word"
  assumes sub: "mk AND mask k = mask k"
      and lo: "0 \<le> v" and hi: "v < 4294967296"
  shows "uint (((word_of_int v :: 32 word) AND mk) AND mask k) = v mod 2 ^ k"
proof -
  have "((word_of_int v :: 32 word) AND mk) AND mask k = word_of_int v AND (mk AND mask k)"
    by (simp only: and.assoc)
  also have "\<dots> = word_of_int v AND mask k" by (simp only: sub)
  also have "\<dots> = take_bit k (word_of_int v)"
    by (simp only: take_bit_eq_mask)
  finally have "uint (((word_of_int v :: 32 word) AND mk) AND mask k)
      = uint (take_bit k (word_of_int v :: 32 word))" by simp
  also have "\<dots> = take_bit k (uint (word_of_int v :: 32 word))"
    by (simp only: unsigned_take_bit_eq)
  also have "uint (word_of_int v :: 32 word) = v"
    using lo hi by (simp add: uint_word_of_int take_bit_eq_mod)
  finally show ?thesis by (simp only: take_bit_eq_mod)
qed

lemma mask_block_inj:
  fixes v1 v2 base :: int and mk :: "32 word"
  assumes sub: "mk AND mask k = mask k"
      and b: "0 \<le> base" "base + 2 ^ k \<le> 4294967296" "base mod 2 ^ k = 0"
      and r1: "base \<le> v1" "v1 < base + 2 ^ k"
      and r2: "base \<le> v2" "v2 < base + 2 ^ k"
      and eq: "(word_of_int v1 :: 32 word) AND mk = word_of_int v2 AND mk"
  shows "v1 = v2"
proof -
  have bd1: "0 \<le> v1" "v1 < 4294967296" using b(1,2) r1 by linarith+
  have bd2: "0 \<le> v2" "v2 < 4294967296" using b(1,2) r2 by linarith+
  have "uint (((word_of_int v1 :: 32 word) AND mk) AND mask k)
      = uint (((word_of_int v2 :: 32 word) AND mk) AND mask k)" by (simp only: eq)
  moreover have "uint (((word_of_int v1 :: 32 word) AND mk) AND mask k) = v1 mod 2 ^ k"
    by (rule uint_and_mask_block[OF sub bd1])
  moreover have "uint (((word_of_int v2 :: 32 word) AND mk) AND mask k) = v2 mod 2 ^ k"
    by (rule uint_and_mask_block[OF sub bd2])
  ultimately have m: "v1 mod 2 ^ k = v2 mod 2 ^ k" by (simp only:)
  have "v1 mod 2 ^ k = v1 - base" using b(3) r1 by (rule mod_block)
  moreover have "v2 mod 2 ^ k = v2 - base" using b(3) r2 by (rule mod_block)
  ultimately show ?thesis using m by linarith
qed

lemma mask_block_nonzero:
  fixes v base :: int and mk :: "32 word"
  assumes sub: "mk AND mask k = mask k"
      and b: "0 \<le> base" "base + 2 ^ k \<le> 4294967296" "base mod 2 ^ k = 0"
      and r: "base < v" "v < base + 2 ^ k"
  shows "(word_of_int v :: 32 word) AND mk \<noteq> 0"
proof
  assume z: "(word_of_int v :: 32 word) AND mk = 0"
  have bd: "0 \<le> v" "v < 4294967296" using b(1,2) r by linarith+
  have "uint (((word_of_int v :: 32 word) AND mk) AND mask k) = v mod 2 ^ k"
    by (rule uint_and_mask_block[OF sub bd])
  then have "v mod 2 ^ k = 0" by (simp add: z)
  moreover have le: "base \<le> v" using r(1) by simp
  have "v mod 2 ^ k = v - base"
    using b(3) le r(2) by (rule mod_block)
  ultimately show False using r by linarith
qed

lemma validate_single:
  assumes "getSystemConfig sid = Some cfg" "memoryRange cfg = Single m" "validateValue sid v"
  shows "min_addr m < v \<and> v \<le> max_addr m"
  using assms by (simp add: validateValue_def inRangeSpec_def split: if_splits)

lemma validate_dual:
  assumes "getSystemConfig sid = Some cfg" "memoryRange cfg = Dual m1 m2" "dualRange cfg"
    "validateValue sid v"
  shows "(min_addr m1 < v \<and> v \<le> max_addr m1) \<or> (min_addr m2 < v \<and> v \<le> max_addr m2)"
  using assms by (simp add: validateValue_def inRangeSpec_def Let_def split: if_splits)

lemma systems_bounds: "\<forall>p \<in> set systems. regionBounds (snd p)"
  by (simp add: systems_def regionBounds_def)

lemma valid_bounds:
  assumes "isValidSystem sid" "validateValue sid v"
  shows "0 < v \<and> v < 4294967296"
proof -
  from assms(1) obtain cfg where c: "getSystemConfig sid = Some cfg"
    by (auto simp: isValidSystem_def)
  then have "(sid, cfg) \<in> set systems"
    unfolding getSystemConfig_def by (rule map_of_SomeD)
  with systems_bounds have rb: "regionBounds cfg" by fastforce
  show ?thesis
  proof (cases "memoryRange cfg")
    case (Single m)
    with rb have "0 \<le> min_addr m" "max_addr m < 4294967296" by (simp_all add: regionBounds_def)
    with validate_single[OF c Single assms(2)] show ?thesis by linarith
  next
    case (Dual m1 m2)
    with rb have b: "dualRange cfg" "0 \<le> min_addr m1" "max_addr m1 < 4294967296"
       "0 \<le> min_addr m2" "max_addr m2 < 4294967296" by (simp_all add: regionBounds_def)
    from validate_dual[OF c Dual b(1) assms(2)] b(2-5) show ?thesis by linarith
  qed
qed

lemma validate_dual_region:
  assumes "getSystemConfig sid = Some cfg" "memoryRange cfg = Dual m1 m2" "dualRange cfg"
    "validateValue sid v"
  shows "if (word_of_int v :: 32 word) AND 0x10000000 = 0
         then min_addr m1 < v \<and> v \<le> max_addr m1
         else min_addr m2 < v \<and> v \<le> max_addr m2"
  using assms by (simp add: validateValue_def inRangeSpec_def Let_def split: if_splits)

lemma masked_systems:
  assumes "(sid, cfg) \<in> set systems" "mask_opt cfg = Some mk"
  shows "(mk = 0x001FFFFF \<and> memoryRange cfg = Single \<lparr>min_addr = 0x80000000, max_addr = 0x801FFFFF\<rparr>)
       \<or> (mk = 0x01FFFFFF \<and> memoryRange cfg = Single \<lparr>min_addr = 0x08000000, max_addr = 0x09FFFFFF\<rparr>)
       \<or> (mk = 0x17FFFFFF \<and> memoryRange cfg = Single \<lparr>min_addr = 0x80000000, max_addr = 0x817FFFFF\<rparr>)
       \<or> (mk = 0x13FFFFFF \<and> dualRange cfg
            \<and> memoryRange cfg = Dual \<lparr>min_addr = 0x80000000, max_addr = 0x817FFFFF\<rparr>
                                      \<lparr>min_addr = 0x90000000, max_addr = 0x93FFFFFF\<rparr>)"
  using assms by (auto simp: systems_def)

lemma valid_mask_nonzero:
  assumes c: "getSystemConfig sid = Some cfg" and mk: "mask_opt cfg = Some mk"
      and v: "validateValue sid v"
  shows "(word_of_int v :: 32 word) AND word_of_int mk \<noteq> 0"
proof -
  have "(sid, cfg) \<in> set systems"
    using c unfolding getSystemConfig_def by (rule map_of_SomeD)
  from masked_systems[OF this mk]
  consider (ps1) "mk = 0x001FFFFF" "memoryRange cfg = Single \<lparr>min_addr = 0x80000000, max_addr = 0x801FFFFF\<rparr>"
    | (psp) "mk = 0x01FFFFFF" "memoryRange cfg = Single \<lparr>min_addr = 0x08000000, max_addr = 0x09FFFFFF\<rparr>"
    | (gc) "mk = 0x17FFFFFF" "memoryRange cfg = Single \<lparr>min_addr = 0x80000000, max_addr = 0x817FFFFF\<rparr>"
    | (wii) "mk = 0x13FFFFFF" "dualRange cfg"
        "memoryRange cfg = Dual \<lparr>min_addr = 0x80000000, max_addr = 0x817FFFFF\<rparr>
                                \<lparr>min_addr = 0x90000000, max_addr = 0x93FFFFFF\<rparr>"
    by blast
  then show ?thesis
  proof cases
    case ps1
    from validate_single[OF c ps1(2) v] have r: "0x80000000 < v" "v < 0x80000000 + 2 ^ 21" by simp_all
    show ?thesis unfolding ps1(1)
      by (rule mask_block_nonzero[where k = 21 and base = "0x80000000", OF _ _ _ _ r])
         (simp_all add: mask_eq_exp_minus_1)
  next
    case psp
    from validate_single[OF c psp(2) v] have r: "0x08000000 < v" "v < 0x08000000 + 2 ^ 25" by simp_all
    show ?thesis unfolding psp(1)
      by (rule mask_block_nonzero[where k = 25 and base = "0x08000000", OF _ _ _ _ r])
         (simp_all add: mask_eq_exp_minus_1)
  next
    case gc
    from validate_single[OF c gc(2) v] have r: "0x80000000 < v" "v < 0x80000000 + 2 ^ 25" by simp_all
    show ?thesis unfolding gc(1)
      by (rule mask_block_nonzero[where k = 25 and base = "0x80000000", OF _ _ _ _ r])
         (simp_all add: mask_eq_exp_minus_1)
  next
    case wii
    from validate_dual[OF c wii(3) wii(2) v]
    have "(0x80000000 < v \<and> v < 0x80000000 + 2 ^ 26) \<or> (0x90000000 < v \<and> v < 0x90000000 + 2 ^ 26)"
      by auto
    then show ?thesis unfolding wii(1)
    proof
      assume "0x80000000 < v \<and> v < 0x80000000 + 2 ^ 26"
      then have r': "0x80000000 < v" "v < 0x80000000 + 2 ^ 26" by auto
      show "(word_of_int v :: 32 word) AND word_of_int 0x13FFFFFF \<noteq> 0"
        by (rule mask_block_nonzero[where k = 26 and base = "0x80000000", OF _ _ _ _ r'])
           (simp_all add: mask_eq_exp_minus_1)
    next
      assume "0x90000000 < v \<and> v < 0x90000000 + 2 ^ 26"
      then have r': "0x90000000 < v" "v < 0x90000000 + 2 ^ 26" by auto
      show "(word_of_int v :: 32 word) AND word_of_int 0x13FFFFFF \<noteq> 0"
        by (rule mask_block_nonzero[where k = 26 and base = "0x90000000", OF _ _ _ _ r'])
           (simp_all add: mask_eq_exp_minus_1)
    qed
  qed
qed

lemma valid_mask_inj:
  assumes c: "getSystemConfig sid = Some cfg" and mk: "mask_opt cfg = Some mk"
      and v1: "validateValue sid v1" and v2: "validateValue sid v2"
      and eq: "(word_of_int v1 :: 32 word) AND word_of_int mk = word_of_int v2 AND word_of_int mk"
  shows "v1 = v2"
proof -
  have "(sid, cfg) \<in> set systems"
    using c unfolding getSystemConfig_def by (rule map_of_SomeD)
  from masked_systems[OF this mk]
  consider (ps1) "mk = 0x001FFFFF" "memoryRange cfg = Single \<lparr>min_addr = 0x80000000, max_addr = 0x801FFFFF\<rparr>"
    | (psp) "mk = 0x01FFFFFF" "memoryRange cfg = Single \<lparr>min_addr = 0x08000000, max_addr = 0x09FFFFFF\<rparr>"
    | (gc) "mk = 0x17FFFFFF" "memoryRange cfg = Single \<lparr>min_addr = 0x80000000, max_addr = 0x817FFFFF\<rparr>"
    | (wii) "mk = 0x13FFFFFF" "dualRange cfg"
        "memoryRange cfg = Dual \<lparr>min_addr = 0x80000000, max_addr = 0x817FFFFF\<rparr>
                                \<lparr>min_addr = 0x90000000, max_addr = 0x93FFFFFF\<rparr>"
    by blast
  then show ?thesis
  proof cases
    case ps1
    from validate_single[OF c ps1(2) v1] have r1: "0x80000000 \<le> v1" "v1 < 0x80000000 + 2 ^ 21" by simp_all
    from validate_single[OF c ps1(2) v2] have r2: "0x80000000 \<le> v2" "v2 < 0x80000000 + 2 ^ 21" by simp_all
    show ?thesis
      by (rule mask_block_inj[where k = 21 and base = "0x80000000" and mk = "word_of_int mk",
              OF _ _ _ _ r1 r2 eq])
         (simp_all add: mask_eq_exp_minus_1 ps1(1))
  next
    case psp
    from validate_single[OF c psp(2) v1] have r1: "0x08000000 \<le> v1" "v1 < 0x08000000 + 2 ^ 25" by simp_all
    from validate_single[OF c psp(2) v2] have r2: "0x08000000 \<le> v2" "v2 < 0x08000000 + 2 ^ 25" by simp_all
    show ?thesis
      by (rule mask_block_inj[where k = 25 and base = "0x08000000" and mk = "word_of_int mk",
              OF _ _ _ _ r1 r2 eq])
         (simp_all add: mask_eq_exp_minus_1 psp(1))
  next
    case gc
    from validate_single[OF c gc(2) v1] have r1: "0x80000000 \<le> v1" "v1 < 0x80000000 + 2 ^ 25" by simp_all
    from validate_single[OF c gc(2) v2] have r2: "0x80000000 \<le> v2" "v2 < 0x80000000 + 2 ^ 25" by simp_all
    show ?thesis
      by (rule mask_block_inj[where k = 25 and base = "0x80000000" and mk = "word_of_int mk",
              OF _ _ _ _ r1 r2 eq])
         (simp_all add: mask_eq_exp_minus_1 gc(1))
  next
    case wii
    have sel: "((w :: 32 word) AND word_of_int mk) AND 0x10000000 = w AND 0x10000000" for w
      by (simp add: and.assoc wii(1))
    have same: "((word_of_int v1 :: 32 word) AND 0x10000000 = 0)
              = ((word_of_int v2 :: 32 word) AND 0x10000000 = 0)"
      using sel[of "word_of_int v1"] sel[of "word_of_int v2"] eq by simp
    note d1 = validate_dual_region[OF c wii(3) wii(2) v1]
    note d2 = validate_dual_region[OF c wii(3) wii(2) v2]
    show ?thesis
    proof (cases "(word_of_int v1 :: 32 word) AND 0x10000000 = 0")
      case True
      with d1 have r1: "0x80000000 \<le> v1" "v1 < 0x80000000 + 2 ^ 26" by simp_all
      from True same d2 have r2: "0x80000000 \<le> v2" "v2 < 0x80000000 + 2 ^ 26" by simp_all
      show ?thesis
        by (rule mask_block_inj[where k = 26 and base = "0x80000000" and mk = "word_of_int mk",
              OF _ _ _ _ r1 r2 eq])
           (simp_all add: mask_eq_exp_minus_1 wii(1))
    next
      case False
      with d1 have r1: "0x90000000 \<le> v1" "v1 < 0x90000000 + 2 ^ 26" by simp_all
      from False same d2 have r2: "0x90000000 \<le> v2" "v2 < 0x90000000 + 2 ^ 26" by simp_all
      show ?thesis
        by (rule mask_block_inj[where k = 26 and base = "0x90000000" and mk = "word_of_int mk",
              OF _ _ _ _ r1 r2 eq])
           (simp_all add: mask_eq_exp_minus_1 wii(1))
    qed
  qed
qed

subsection \<open>Slot shifting\<close>

lemma shift_fold_nth:
  assumes "i \<le> k" "k < length sl"
  shows "length (fold (\<lambda>b s. s[b := s ! (b + 1)]) [i ..< k] sl) = length sl
       \<and> (\<forall>j < length sl. fold (\<lambda>b s. s[b := s ! (b + 1)]) [i ..< k] sl ! j
              = (if i \<le> j \<and> j < k then sl ! (j + 1) else sl ! j))"
  using assms
proof (induction k)
  case 0
  then show ?case by simp
next
  case (Suc k)
  show ?case
  proof (cases "i = Suc k")
    case True
    then show ?thesis by auto
  next
    case False
    with Suc.prems have ik: "i \<le> k" "k < length sl" by simp_all
    from Suc.IH[OF ik] have
      len: "length (fold (\<lambda>b s. s[b := s ! (b + 1)]) [i ..< k] sl) = length sl"
      and nth: "\<And>j. j < length sl \<Longrightarrow> fold (\<lambda>b s. s[b := s ! (b + 1)]) [i ..< k] sl ! j
              = (if i \<le> j \<and> j < k then sl ! (j + 1) else sl ! j)" by simp_all
    have unf: "fold (\<lambda>b s. s[b := s ! (b + 1)]) [i ..< Suc k] sl
       = (fold (\<lambda>b s. s[b := s ! (b + 1)]) [i ..< k] sl)
           [k := fold (\<lambda>b s. s[b := s ! (b + 1)]) [i ..< k] sl ! (k + 1)]"
      using ik(1) by simp
    show ?thesis unfolding unf using len nth Suc.prems ik
      by (auto simp: nth_list_update)
  qed
qed

lemma shiftSlots_length: "length (shiftSlots maxB i sl) = length sl"
proof (cases "i \<le> maxB - 1 \<and> maxB - 1 < length sl")
  case True
  then show ?thesis unfolding shiftSlots_def using shift_fold_nth[of i "maxB - 1" sl] by simp
next
  case False
  have "length (fold (\<lambda>b s. s[b := s ! (b + 1)]) xs s) = length s" for xs and s :: slots
    by (induction xs arbitrary: s) simp_all
  then show ?thesis unfolding shiftSlots_def by simp
qed

lemma shiftSlots_nth:
  assumes "i < maxB" "length sl = maxB" "j < maxB"
  shows "shiftSlots maxB i sl ! j
       = (if j = maxB - 1 then 0 else if i \<le> j then sl ! (j + 1) else sl ! j)"
proof -
  have a: "i \<le> maxB - 1" "maxB - 1 < length sl" using assms by simp_all
  from shift_fold_nth[OF a] assms show ?thesis
    unfolding shiftSlots_def by (auto simp: nth_list_update)
qed

lemma shiftSlots_set:
  assumes "i < maxB" "length sl = maxB"
  shows "set (shiftSlots maxB i sl) \<subseteq> insert 0 (set sl)"
proof
  fix w assume "w \<in> set (shiftSlots maxB i sl)"
  then obtain j where j: "j < length (shiftSlots maxB i sl)" "w = shiftSlots maxB i sl ! j"
    by (auto simp: in_set_conv_nth)
  then have jm: "j < maxB" using assms by (simp add: shiftSlots_length)
  show "w \<in> insert 0 (set sl)"
    using shiftSlots_nth[OF assms jm] j(2) jm assms(2)
    by (auto split: if_splits)
qed

subsection \<open>The invariant of the preprocessor\<close>

lemma computeCounts_cache [simp]:
  "computeCounts (st\<lparr>countsCache := x\<rparr>) = computeCounts st"
  by (simp add: computeCounts_def)

lemma getCounts_fst: "cacheOk st \<Longrightarrow> fst (getCounts st) = computeCounts st"
  by (auto simp: getCounts_def cacheOk_def Let_def split: option.splits)

lemma getCounts_snd:
  "cacheOk st \<Longrightarrow> snd (getCounts st) = st\<lparr>countsCache := Some (computeCounts st)\<rparr>"
  by (auto simp: getCounts_def cacheOk_def Let_def split: option.splits)

lemma prepInv_getCounts:
  assumes "prepInv sid st"
  shows "prepInv sid (snd (getCounts st))"
proof -
  from assms have c: "cacheOk st" by (simp add: prepInv_def)
  show ?thesis
    using assms unfolding getCounts_snd[OF c]
    by (simp add: prepInv_def cacheOk_def slotsOk_def)
qed

lemma update_set: "set (AList.update k v al) \<subseteq> insert (k, v) (set al)"
  by (induction al) auto

lemma map_of_mem: "map_of al k = Some v \<Longrightarrow> (k, v) \<in> set al"
  by (rule map_of_SomeD)

lemma update_ok:
  assumes "nodesOk sid maxB nm" "length sl = maxB" "\<forall>w \<in> set sl. w = 0 \<or> storedValid sid w"
  shows "nodesOk sid maxB (AList.update k sl nm)"
  unfolding nodesOk_def
proof
  fix node assume "node \<in> set (AList.update k sl nm)"
  with update_set[of k sl nm] have "node = (k, sl) \<or> node \<in> set nm" by auto
  then show "length (snd node) = maxB \<and> (\<forall>w \<in> set (snd node). w = 0 \<or> storedValid sid w)"
    using assms by (auto simp: nodesOk_def)
qed

lemma storeRow_ok:
  assumes "nodesOk sid maxB nm" "validateValue sid val"
  shows "nodesOk sid maxB (storeRow maxB bi addr val nm)"
proof -
  have sv: "storedValid sid (word_of_int val)"
    using assms(2) by (auto simp: storedValid_def)
  show ?thesis
  proof (cases "map_of nm addr")
    case None
    have "set ((replicate maxB (0 :: 32 word))[bi := word_of_int val])
            \<subseteq> insert (word_of_int val) (set (replicate maxB 0))"
      by (rule set_update_subset_insert)
    then have "\<forall>w \<in> set ((replicate maxB (0 :: 32 word))[bi := word_of_int val]).
                 w = 0 \<or> storedValid sid w"
      using sv by auto
    then show ?thesis
      unfolding storeRow_def None by (simp add: update_ok[OF assms(1)])
  next
    case (Some sl)
    then have mem: "(addr, sl) \<in> set nm" by (rule map_of_SomeD)
    with assms(1) have ok: "length sl = maxB" "\<forall>w \<in> set sl. w = 0 \<or> storedValid sid w"
      by (auto simp: nodesOk_def)
    have "set (sl[bi := word_of_int val]) \<subseteq> insert (word_of_int val) (set sl)"
      by (rule set_update_subset_insert)
    then have "\<forall>w \<in> set (sl[bi := word_of_int val]). w = 0 \<or> storedValid sid w"
      using sv ok(2) by auto
    then show ?thesis
      unfolding storeRow_def Some using ok(1) by (simp add: update_ok[OF assms(1)])
  qed
qed

lemma addRow_ok:
  assumes "nodesOk sid maxB nm" "validateValue sid (snd row)"
  shows "nodesOk sid maxB (addRow m vt maxB bi row nm)"
  using assms storeRow_ok[OF assms] by (simp add: addRow_def Let_def)

lemma addRows_ok:
  assumes "nodesOk sid maxB nm" "\<forall>row \<in> set rows. validateValue sid (snd row)"
  shows "nodesOk sid maxB (fold (addRow m vt maxB bi) rows nm)"
  using assms by (induction rows arbitrary: nm) (simp_all add: addRow_ok)

lemma prepInv_addBatch:
  assumes inv: "prepInv sid st" and pv: "parserValidated sid parsed"
      and ab: "addBatch parsed st = Inr (c, st')"
  shows "prepInv sid st'"
proof -
  from inv have sid: "systemId st = Some sid" by (simp add: prepInv_def)
  from ab sid have lt: "batchCount st < maxBatches st"
    by (auto simp: addBatch_def split: if_splits)
  define nm where "nm = fold (addRow (getSystemMask sid) (vtableValues (vals parsed))
                        (maxBatches st) (batchCount st))
                        (zip (addresses parsed) (vals parsed)) (nodeMap st)"
  define st1 where "st1 = st\<lparr>nodeMap := nm, batchCount := batchCount st + 1, countsCache := None\<rparr>"
  from ab sid lt have st': "st' = snd (getCounts st1)"
    by (auto simp: addBatch_def Let_def st1_def nm_def)
  have rows: "\<forall>row \<in> set (zip (addresses parsed) (vals parsed)). validateValue sid (snd row)"
    using pv by (auto simp: parserValidated_def dest: set_zip_rightD)
  have "nodesOk sid (maxBatches st) (nodeMap st)"
    using inv by (simp add: prepInv_def slotsOk_def nodesOk_def)
  then have "nodesOk sid (maxBatches st) nm"
    unfolding nm_def by (rule addRows_ok) (rule rows)
  then have "prepInv sid st1"
    using inv lt by (simp add: prepInv_def st1_def cacheOk_def slotsOk_def nodesOk_def)
  then show ?thesis unfolding st' by (rule prepInv_getCounts)
qed

lemma prepInv_removeBatch:
  assumes inv: "prepInv sid st" and rb: "removeBatch i st = Inr (c, st')"
  shows "prepInv sid st'"
proof -
  from rb have i: "0 \<le> i" "i < int (batchCount st)"
    by (auto simp: removeBatch_def split: if_splits)
  define nm where "nm = filter (\<lambda>(addr, sl). anyNonZero (batchCount st - 1) sl)
      (map (\<lambda>(addr, sl). (addr, shiftSlots (maxBatches st) (nat i) sl)) (nodeMap st))"
  define st1 where "st1 = st\<lparr>nodeMap := nm, batchCount := batchCount st - 1, countsCache := None\<rparr>"
  from rb i have st': "st' = snd (getCounts st1)"
    by (auto simp: removeBatch_def Let_def st1_def nm_def)
  from inv have bc: "batchCount st \<le> maxBatches st" by (simp add: prepInv_def)
  with i have im: "nat i < maxBatches st" by linarith
  have "nodesOk sid (maxBatches st) nm"
    unfolding nodesOk_def
  proof
    fix node assume "node \<in> set nm"
    then obtain addr sl where n: "node = (addr, shiftSlots (maxBatches st) (nat i) sl)"
      and m: "(addr, sl) \<in> set (nodeMap st)"
      by (auto simp: nm_def)
    from inv m have ok: "length sl = maxBatches st" "\<forall>w \<in> set sl. w = 0 \<or> storedValid sid w"
      by (auto simp: prepInv_def slotsOk_def)
    from shiftSlots_set[OF im ok(1)] ok(2)
    have "\<forall>w \<in> set (shiftSlots (maxBatches st) (nat i) sl). w = 0 \<or> storedValid sid w" by auto
    then show "length (snd node) = maxBatches st
        \<and> (\<forall>w \<in> set (snd node). w = 0 \<or> storedValid sid w)"
      using n ok(1) by (simp add: shiftSlots_length)
  qed
  then have "prepInv sid st1"
    using inv by (auto simp: prepInv_def st1_def cacheOk_def slotsOk_def nodesOk_def)
  then show ?thesis unfolding st' by (rule prepInv_getCounts)
qed

lemma prepInv_start:
  assumes "setSystem sid newPreprocessor = Inr st"
  shows "prepInv sid st"
  using assms
  by (auto simp: setSystem_def newPreprocessor_def reset_def prepInv_def cacheOk_def
        slotsOk_def maxFiles_def split: if_splits)

lemma reachable_inv: "reachable sid st \<Longrightarrow> prepInv sid st"
proof (induction rule: reachable.induct)
  case (start sid st)
  then show ?case by (rule prepInv_start)
next
  case (add sid st parsed c st')
  then show ?case by (auto intro: prepInv_addBatch)
next
  case (remove sid st i c st')
  then show ?case by (auto intro: prepInv_removeBatch)
next
  case (counts sid st c st')
  from prepInv_getCounts[OF counts.IH] counts.hyps(2) show ?case by simp
qed

subsection \<open>Counts and tallies\<close>

lemma fold_countStep_totals:
  assumes "fold (countStep n rngs) nm (a, b, c, rcs) = (a', b', c', rcs')"
  shows "a' = a + length (filter (\<lambda>node. classify n (snd node) = StaticStatic) nm)
       \<and> b' = b + length (filter (\<lambda>node. classify n (snd node) = StaticNode) nm)
       \<and> c' = c + length (filter (\<lambda>node. classify n (snd node) = DynamicNode) nm)"
  using assms
proof (induction nm arbitrary: a b c rcs)
  case Nil
  then show ?case by simp
next
  case (Cons node nm)
  obtain a1 b1 c1 rcs1 where s: "countStep n rngs node (a, b, c, rcs) = (a1, b1, c1, rcs1)"
    by (metis prod_cases4)
  from Cons.prems have "fold (countStep n rngs) nm (a1, b1, c1, rcs1) = (a', b', c', rcs')"
    by (simp add: s)
  from Cons.IH[OF this] s show ?case
    by (cases "classify n (snd node)") (auto simp: countStep_def Let_def)
qed

lemma computeCounts_totals:
  "staticStatics (computeCounts st)
     = length (filter (\<lambda>node. classify (batchCount st) (snd node) = StaticStatic) (nodeMap st))"
  "staticNodes (computeCounts st)
     = length (filter (\<lambda>node. classify (batchCount st) (snd node) = StaticNode) (nodeMap st))"
  "dynamicNodes (computeCounts st)
     = length (filter (\<lambda>node. classify (batchCount st) (snd node) = DynamicNode) (nodeMap st))"
proof -
  define sid where "sid = (case systemId st of None \<Rightarrow> ''n64'' | Some s \<Rightarrow> s)"
  define rcs0 where "rcs0 = map (\<lambda>r. \<lparr>rc_label = label r, rc_min = rmin r, rc_max = rmax r,
                                    rc_staticNodes = 0, rc_staticStatics = 0\<rparr>) (getRanges sid)"
  obtain a b c rcs where f:
    "fold (countStep (batchCount st) (getRanges sid)) (nodeMap st) (0, 0, 0, rcs0) = (a, b, c, rcs)"
    by (metis prod_cases4)
  have cc: "staticStatics (computeCounts st) = a" "staticNodes (computeCounts st) = b"
    "dynamicNodes (computeCounts st) = c"
    using f by (simp_all add: computeCounts_def Let_def sid_def rcs0_def)
  from fold_countStep_totals[OF f] cc show
    "staticStatics (computeCounts st)
     = length (filter (\<lambda>node. classify (batchCount st) (snd node) = StaticStatic) (nodeMap st))"
    "staticNodes (computeCounts st)
     = length (filter (\<lambda>node. classify (batchCount st) (snd node) = StaticNode) (nodeMap st))"
    "dynamicNodes (computeCounts st)
     = length (filter (\<lambda>node. classify (batchCount st) (snd node) = DynamicNode) (nodeMap st))"
    by simp_all
qed

lemma fold_collapseStep_lengths:
  assumes "fold (collapseStep m n) nm (ss, sn, dyn) = (ss', sn', dyn')"
  shows "length ss' = length ss
            + length (filter (\<lambda>node. classify n (maskSlots m n (snd node)) = StaticStatic) nm)
       \<and> length sn' = length sn
            + length (filter (\<lambda>node. classify n (maskSlots m n (snd node)) = StaticNode) nm)
       \<and> length dyn' = length dyn
            + length (filter (\<lambda>node. classify n (maskSlots m n (snd node)) = DynamicNode) nm)"
  using assms
proof (induction nm arbitrary: ss sn dyn)
  case Nil
  then show ?case by simp
next
  case (Cons node nm)
  obtain ss1 sn1 dyn1 where s: "collapseStep m n node (ss, sn, dyn) = (ss1, sn1, dyn1)"
    by (metis prod_cases3)
  from Cons.prems have "fold (collapseStep m n) nm (ss1, sn1, dyn1) = (ss', sn', dyn')"
    by (simp add: s)
  from Cons.IH[OF this] s show ?case
    by (cases "classify n (maskSlots m n (snd node))") (auto simp: collapseStep_def Let_def)
qed

subsection \<open>Masking keeps the classification\<close>

lemma take_maskSlots:
  "take n (maskSlots (Some mk) n sl) = map (maskSlot mk) (take n sl)"
proof (rule nth_equalityI)
  show "length (take n (maskSlots (Some mk) n sl)) = length (map (maskSlot mk) (take n sl))"
    by (simp add: maskSlots_def)
next
  fix j assume "j < length (take n (maskSlots (Some mk) n sl))"
  then have j: "j < n" "j < length sl" by (simp_all add: maskSlots_def)
  then show "take n (maskSlots (Some mk) n sl) ! j = map (maskSlot mk) (take n sl) ! j"
    by (simp add: maskSlots_def maskSlot_def)
qed

lemma classifyLoop_mask:
  assumes nz: "\<And>v. v \<in> V \<Longrightarrow> v \<noteq> 0 \<Longrightarrow> maskSlot mk v \<noteq> 0"
      and inj: "\<And>v w. v \<in> V \<Longrightarrow> w \<in> V \<Longrightarrow> v \<noteq> 0 \<Longrightarrow> w \<noteq> 0
                  \<Longrightarrow> maskSlot mk v = maskSlot mk w \<Longrightarrow> v = w"
      and mem: "set xs \<subseteq> V" "fv \<in> V"
  shows "classifyLoop (map (maskSlot mk) xs) (maskSlot mk fv) a = classifyLoop xs fv a"
  using mem
proof (induction xs arbitrary: fv a)
  case Nil
  then show ?case by simp
next
  case (Cons x xs)
  have z: "maskSlot mk 0 = 0" by (simp add: maskSlot_def)
  from Cons.prems have xV: "x \<in> V" and xsV: "set xs \<subseteq> V" by simp_all
  show ?case
  proof (cases "x = 0")
    case True
    then show ?thesis by (simp add: z)
  next
    case xnz: False
    then have mx: "maskSlot mk x \<noteq> 0" using nz xV by blast
    show ?thesis
    proof (cases "fv = 0")
      case True
      then show ?thesis using xnz mx Cons.IH[OF xsV xV] by (simp add: z)
    next
      case fnz: False
      then have mf: "maskSlot mk fv \<noteq> 0" using nz Cons.prems(2) by blast
      have eqv: "(maskSlot mk x = maskSlot mk fv) = (x = fv)"
        using inj[OF xV Cons.prems(2) xnz fnz] by auto
      show ?thesis using xnz mx fnz mf eqv Cons.IH[OF xsV Cons.prems(2)] by simp
    qed
  qed
qed

lemma classify_mask:
  assumes c: "getSystemConfig sid = Some cfg"
      and ok: "\<forall>w \<in> set sl. w = 0 \<or> storedValid sid w"
  shows "classify n (maskSlots (mask_opt cfg) n sl) = classify n sl"
proof (cases "mask_opt cfg")
  case None
  then show ?thesis by (simp add: maskSlots_def)
next
  case (Some mk)
  define V where "V = insert 0 {w. storedValid sid w}"
  have nz: "maskSlot mk v \<noteq> 0" if "v \<in> V" "v \<noteq> 0" for v
  proof -
    from that obtain u where u: "validateValue sid u" "v = word_of_int u"
      by (auto simp: V_def storedValid_def)
    from valid_mask_nonzero[OF c Some u(1)] that(2) show ?thesis
      by (simp add: maskSlot_def u(2))
  qed
  have inj: "v = w" if "v \<in> V" "w \<in> V" "v \<noteq> 0" "w \<noteq> 0" "maskSlot mk v = maskSlot mk w" for v w
  proof -
    from that obtain u1 u2 where u: "validateValue sid u1" "v = word_of_int u1"
        "validateValue sid u2" "w = word_of_int u2"
      by (auto simp: V_def storedValid_def)
    from that(3-5) have "(word_of_int u1 :: 32 word) AND word_of_int mk
        = word_of_int u2 AND word_of_int mk"
      by (simp add: maskSlot_def u)
    from valid_mask_inj[OF c Some u(1) u(3) this] show ?thesis by (simp add: u)
  qed
  have sub: "set (take n sl) \<subseteq> V"
    using ok by (auto simp: V_def dest: in_set_takeD)
  have "classifyLoop (map (maskSlot mk) (take n sl)) (maskSlot mk 0) True
      = classifyLoop (take n sl) 0 True"
    by (rule classifyLoop_mask[where V = V, OF nz inj sub]) (simp_all add: V_def)
  then show ?thesis
    by (simp add: classify_def Some take_maskSlots maskSlot_def)
qed

lemma collapse_lengths:
  assumes inv: "prepInv sid st"
  shows "length (col_staticStatics (fst (collapse st)))
           = length (filter (\<lambda>node. classify (batchCount st) (snd node) = StaticStatic) (nodeMap st))"
    and "length (col_staticNodes (fst (collapse st)))
           = length (filter (\<lambda>node. classify (batchCount st) (snd node) = StaticNode) (nodeMap st))"
    and "length (col_dynamicNodes (fst (collapse st)))
           = length (filter (\<lambda>node. classify (batchCount st) (snd node) = DynamicNode) (nodeMap st))"
proof -
  from inv have c: "cacheOk st" and sid: "systemId st = Some sid" and v: "isValidSystem sid"
    and ok: "slotsOk sid st" by (simp_all add: prepInv_def)
  from v obtain cfg where cfg: "getSystemConfig sid = Some cfg"
    by (auto simp: isValidSystem_def)
  have gc: "getCounts st = (computeCounts st, st\<lparr>countsCache := Some (computeCounts st)\<rparr>)"
    using getCounts_fst[OF c] getCounts_snd[OF c] by (metis prod.collapse)
  obtain ss sn dyn where f:
    "fold (collapseStep (mask_opt cfg) (batchCount st)) (nodeMap st) ([], [], []) = (ss, sn, dyn)"
    by (metis prod_cases3)
  have col: "col_staticStatics (fst (collapse st)) = ss" "col_staticNodes (fst (collapse st)) = sn"
      "col_dynamicNodes (fst (collapse st)) = dyn"
    using f by (simp_all add: collapse_def gc sid getSystemMask_def cfg)
  have same: "filter (\<lambda>node. classify (batchCount st)
                   (maskSlots (mask_opt cfg) (batchCount st) (snd node)) = k) (nodeMap st)
            = filter (\<lambda>node. classify (batchCount st) (snd node) = k) (nodeMap st)" for k
  proof (rule filter_cong[OF refl])
    fix node assume "node \<in> set (nodeMap st)"
    with ok have "\<forall>w \<in> set (snd node). w = 0 \<or> storedValid sid w" by (simp add: slotsOk_def)
    from classify_mask[OF cfg this]
    show "(classify (batchCount st) (maskSlots (mask_opt cfg) (batchCount st) (snd node)) = k)
        = (classify (batchCount st) (snd node) = k)" by simp
  qed
  from fold_collapseStep_lengths[OF f] col same
  show "length (col_staticStatics (fst (collapse st)))
           = length (filter (\<lambda>node. classify (batchCount st) (snd node) = StaticStatic) (nodeMap st))"
    and "length (col_staticNodes (fst (collapse st)))
           = length (filter (\<lambda>node. classify (batchCount st) (snd node) = StaticNode) (nodeMap st))"
    and "length (col_dynamicNodes (fst (collapse st)))
           = length (filter (\<lambda>node. classify (batchCount st) (snd node) = DynamicNode) (nodeMap st))"
    by simp_all
qed

text \<open>
  Claim C4. In every state reached by \<open>setSystem\<close> and then any sequence of \<open>addBatch\<close>
  calls on parser-validated batches and \<open>removeBatch\<close> calls, the \<open>staticStatics\<close>,
  \<open>staticNodes\<close> and \<open>dynamicNodes\<close> counts of \<open>getCounts\<close> are the numbers of entries
  that \<open>collapse\<close> writes into its three partitions, although \<open>collapse\<close> masks every
  non-zero slot before it classifies.
\<close>

theorem counts_match_collapse:
  assumes "reachable sid st"
  shows "staticStatics (fst (getCounts st)) = length (col_staticStatics (fst (collapse st)))
       \<and> staticNodes (fst (getCounts st)) = length (col_staticNodes (fst (collapse st)))
       \<and> dynamicNodes (fst (getCounts st)) = length (col_dynamicNodes (fst (collapse st)))"
proof -
  from assms have inv: "prepInv sid st" by (rule reachable_inv)
  then have c: "cacheOk st" by (simp add: prepInv_def)
  show ?thesis
    unfolding getCounts_fst[OF c] computeCounts_totals collapse_lengths[OF inv] by simp
qed

lemma mask_ps1: "getSystemMask ''ps1'' = Some 0x001FFFFF"
  by (simp add: getSystemMask_def getSystemConfig_def systems_def)

lemma start_ps1: "setSystem ''ps1'' newPreprocessor = Inr ps1Empty"
  by (simp add: setSystem_def isValidSystem_def getSystemConfig_def systems_def
        newPreprocessor_def reset_def ps1Empty_def maxFiles_def)

lemma getCounts_nocache:
  "countsCache st = None \<Longrightarrow> getCounts st = (computeCounts st, withCache st)"
  by (simp add: getCounts_def withCache_def Let_def)

lemma replicate10: "replicate 10 x = [x, x, x, x, x, x, x, x, x, x]"
  by (simp add: numeral_eq_Suc)

lemma Suc_Suc_2: "Suc (Suc 0) = 2"
  by simp

lemma add_batchA: "addBatch batchA ps1Empty = Inr (computeCounts ps1One, withCache ps1One)"
proof -
  have "addBatch batchA ps1Empty = Inr (getCounts ps1One)"
    by (simp add: addBatch_def ps1Empty_def batchA_def mask_ps1 vtableValues_def valueFreq_def
          addRow_def storeRow_def maskedVal_def ps1One_def Let_def replicate10)
  then show ?thesis by (simp add: getCounts_nocache ps1One_def)
qed

lemma add_batchB:
  "addBatch batchB (withCache ps1One) = Inr (computeCounts ps1Two, withCache ps1Two)"
proof -
  have "addBatch batchB (withCache ps1One)
          = Inr (getCounts (ps1Two\<lparr>batchCount := Suc (Suc 0)\<rparr>))"
    by (simp add: addBatch_def withCache_def ps1One_def batchB_def mask_ps1 vtableValues_def
          valueFreq_def addRow_def storeRow_def maskedVal_def ps1Two_def Let_def replicate10)
  moreover have "ps1Two\<lparr>batchCount := Suc (Suc 0)\<rparr> = ps1Two"
    by (simp add: ps1Two_def)
  moreover have "countsCache ps1Two = None"
    by (simp add: ps1Two_def)
  ultimately show ?thesis by (simp add: getCounts_nocache)
qed

lemma valid_batchA: "parserValidated ''ps1'' batchA"
  by (simp add: parserValidated_def batchA_def validateValue_def alignmentMask_def
        getSystemConfig_def systems_def inRangeSpec_def)

lemma valid_batchB: "parserValidated ''ps1'' batchB"
  by (simp add: parserValidated_def batchB_def validateValue_def alignmentMask_def
        getSystemConfig_def systems_def inRangeSpec_def)

lemma reachable_ps1Two: "reachable ''ps1'' (withCache ps1Two)"
  by (rule reachable.add[OF reachable.add[OF reachable.start[OF start_ps1] valid_batchA add_batchA]
        valid_batchB add_batchB])

theorem counts_match_collapse_witness:
  "reachable ''ps1'' (withCache ps1Two)
   \<and> staticStatics (fst (getCounts (withCache ps1Two)))
       = length (col_staticStatics (fst (collapse (withCache ps1Two))))
   \<and> staticNodes (fst (getCounts (withCache ps1Two)))
       = length (col_staticNodes (fst (collapse (withCache ps1Two))))
   \<and> dynamicNodes (fst (getCounts (withCache ps1Two)))
       = length (col_dynamicNodes (fst (collapse (withCache ps1Two))))"
  using counts_match_collapse[OF reachable_ps1Two] reachable_ps1Two by simp

text \<open>
  Claim C8, as amended. In every reachable state the recommendation of \<open>getCounts\<close> has
  \<open>skipSticky\<close> true exactly when the range mode of the system is not \<open>full\<close>; for a
  system in \<open>full\<close> mode (\<open>gba\<close>) \<open>_buildRecommendation\<close> returns \<open>skipSticky = false\<close>.
\<close>

theorem skipSticky_unless_full:
  assumes "reachable sid st" and "getSystemConfig sid = Some cfg"
  shows "skipSticky (recommendation (fst (getCounts st))) = (rangeMode cfg \<noteq> ''full'')"
proof -
  from assms(1) have inv: "prepInv sid st" by (rule reachable_inv)
  then have c: "cacheOk st" and sid: "systemId st = Some sid" by (simp_all add: prepInv_def)
  define rcs0 where "rcs0 = map (\<lambda>r. \<lparr>rc_label = label r, rc_min = rmin r, rc_max = rmax r,
                                    rc_staticNodes = 0, rc_staticStatics = 0\<rparr>) (getRanges sid)"
  obtain a b d rcs where f:
    "fold (countStep (batchCount st) (getRanges sid)) (nodeMap st) (0, 0, 0, rcs0) = (a, b, d, rcs)"
    by (metis prod_cases4)
  have "recommendation (computeCounts st) = buildRecommendation (Some sid) rcs b a"
    using f by (simp add: computeCounts_def Let_def sid rcs0_def)
  then show ?thesis
    unfolding getCounts_fst[OF c]
    by (simp add: buildRecommendation_def assms(2) Let_def)
qed

lemma cfg_ps1: "getSystemConfig ''ps1'' = Some \<lparr>name = ''PlayStation 1'', mask_opt = Some 0x001FFFFF,
        memoryRange = Single \<lparr>min_addr = 0x80000000, max_addr = 0x801FFFFF\<rparr>,
        use24Bit = False, dualRange = False, rangeMode = ''half''\<rparr>"
  by (simp add: getSystemConfig_def systems_def)

theorem skipSticky_unless_full_witness:
  "reachable ''ps1'' (withCache ps1One)
   \<and> skipSticky (recommendation (fst (getCounts (withCache ps1One))))"
  using skipSticky_unless_full[OF reachable.add[OF reachable.start[OF start_ps1] valid_batchA add_batchA] cfg_ps1]
    reachable.add[OF reachable.start[OF start_ps1] valid_batchA add_batchA]
  by simp

text \<open>
  Claim C8 as stated fails for \<open>gba\<close>, the system in \<open>full\<close> range mode.
\<close>

theorem skipSticky_counterexample:
  "setSystem ''gba'' newPreprocessor = Inr gbaEmpty
   \<and> \<not> skipSticky (recommendation (fst (getCounts gbaEmpty)))"
  by (simp add: setSystem_def isValidSystem_def getSystemConfig_def systems_def
        newPreprocessor_def reset_def gbaEmpty_def maxFiles_def getCounts_def computeCounts_def
        buildRecommendation_def Let_def split: prod.splits)

lemma addRow_kept:
  "addRow m vt maxB bi row nm
     = (if keptRow m vt row then storeRow maxB bi (fst row) (snd row) nm else nm)"
  by (auto simp: addRow_def keptRow_def Let_def)

lemma storeRow_keys:
  "fst ` set (storeRow maxB bi addr val nm) = insert addr (fst ` set nm)"
  by (simp add: storeRow_def dom_update split: option.splits)

lemma storeRow_distinct:
  "distinct (map fst nm) \<Longrightarrow> distinct (map fst (storeRow maxB bi addr val nm))"
  by (simp add: storeRow_def distinct_update split: option.splits)

lemma storeRow_lengths:
  assumes "lengthsOk maxB nm"
  shows "lengthsOk maxB (storeRow maxB bi addr val nm)"
proof (cases "map_of nm addr")
  case None
  have "set (AList.update addr ((replicate maxB 0)[bi := word_of_int val]) nm)
          \<subseteq> insert (addr, (replicate maxB 0)[bi := word_of_int val]) (set nm)"
    by (induction nm) auto
  then show ?thesis using assms None unfolding lengthsOk_def storeRow_def by fastforce
next
  case (Some sl)
  then have "(addr, sl) \<in> set nm" by (rule map_of_SomeD)
  with assms have l: "length sl = maxB" by (auto simp: lengthsOk_def)
  have "set (AList.update addr (sl[bi := word_of_int val]) nm)
          \<subseteq> insert (addr, sl[bi := word_of_int val]) (set nm)"
    by (induction nm) auto
  then show ?thesis using assms Some l unfolding lengthsOk_def storeRow_def by fastforce
qed

lemma storeRow_slot:
  assumes "lengthsOk maxB nm" "bi < maxB" "b < maxB"
  shows "slotOf (storeRow maxB bi addr val nm) a b
       = (if a = addr \<and> b = bi then word_of_int val else slotOf nm a b)"
proof (cases "map_of nm addr")
  case None
  then show ?thesis using assms
    by (auto simp: slotOf_def storeRow_def update_conv' nth_list_update)
next
  case (Some sl)
  then have "(addr, sl) \<in> set nm" by (rule map_of_SomeD)
  with assms have l: "length sl = maxB" by (auto simp: lengthsOk_def)
  show ?thesis using assms Some l
    by (auto simp: slotOf_def storeRow_def update_conv' nth_list_update)
qed

lemma addRows_lengths:
  "lengthsOk maxB nm \<Longrightarrow> lengthsOk maxB (fold (addRow m vt maxB bi) rows nm)"
  by (induction rows arbitrary: nm) (simp_all add: addRow_kept storeRow_lengths)

lemma addRows_distinct:
  "distinct (map fst nm) \<Longrightarrow> distinct (map fst (fold (addRow m vt maxB bi) rows nm))"
  by (induction rows arbitrary: nm) (simp_all add: addRow_kept storeRow_distinct)

lemma addRows_keys:
  "fst ` set (fold (addRow m vt maxB bi) rows nm)
     = fst ` set nm \<union> {a. \<exists>row \<in> set rows. keptRow m vt row \<and> fst row = a}"
  by (induction rows arbitrary: nm) (auto simp: addRow_kept storeRow_keys)

lemma addRows_slot:
  assumes "lengthsOk maxB nm" "bi < maxB" "b < maxB"
  shows "slotOf (fold (addRow m vt maxB bi) rows nm) a b
       = (if b = bi then lastKept m vt rows a (slotOf nm a bi) else slotOf nm a b)"
  using assms(1)
proof (induction rows arbitrary: nm)
  case Nil
  then show ?case by (simp add: lastKept_def)
next
  case (Cons row rows)
  show ?case
  proof (cases "keptRow m vt row")
    case True
    have l: "lengthsOk maxB (storeRow maxB bi (fst row) (snd row) nm)"
      using Cons.prems by (rule storeRow_lengths)
    show ?thesis
      using True Cons.IH[OF l] storeRow_slot[OF Cons.prems assms(2) assms(3)]
        storeRow_slot[OF Cons.prems assms(2) assms(2)]
      by (simp add: addRow_kept lastKept_def)
  next
    case False
    then show ?thesis using Cons.IH[OF Cons.prems] by (simp add: addRow_kept lastKept_def)
  qed
qed

lemma word_of_int_nonzero:
  fixes v :: int
  assumes "0 < v" "v < 4294967296"
  shows "(word_of_int v :: 32 word) \<noteq> 0"
proof
  assume "(word_of_int v :: 32 word) = 0"
  then have "uint (word_of_int v :: 32 word) = 0" by simp
  moreover have "uint (word_of_int v :: 32 word) = v"
    using assms by (simp add: uint_word_of_int take_bit_eq_mod)
  ultimately show False using assms by simp
qed

lemma lastKept_none:
  assumes "\<not> (\<exists>row \<in> set rows. keptRow m vt row \<and> fst row = a)"
  shows "lastKept m vt rows a w0 = w0"
  using assms by (induction rows arbitrary: w0) (auto simp: lastKept_def)

lemma lastKept_some:
  assumes "\<exists>row \<in> set rows. keptRow m vt row \<and> fst row = a"
  shows "\<exists>row \<in> set rows. lastKept m vt rows a w0 = word_of_int (snd row)"
  using assms
proof (induction rows arbitrary: w0)
  case Nil
  then show ?case by simp
next
  case (Cons r rows)
  show ?case
  proof (cases "\<exists>row \<in> set rows. keptRow m vt row \<and> fst row = a")
    case True
    from Cons.IH[OF True] show ?thesis by (auto simp: lastKept_def)
  next
    case False
    with Cons.prems have k: "keptRow m vt r \<and> fst r = a" by auto
    have "lastKept m vt (r # rows) a w0 = lastKept m vt rows a (word_of_int (snd r))"
      using k by (simp add: lastKept_def)
    also have "\<dots> = word_of_int (snd r)" using False by (rule lastKept_none)
    finally show ?thesis by auto
  qed
qed

lemma lastKept_nonzero:
  assumes "\<forall>row \<in> set rows. (word_of_int (snd row) :: 32 word) \<noteq> 0"
  shows "(lastKept m vt rows a 0 \<noteq> 0) = (\<exists>row \<in> set rows. keptRow m vt row \<and> fst row = a)"
proof (cases "\<exists>row \<in> set rows. keptRow m vt row \<and> fst row = a")
  case True
  from lastKept_some[OF True, of 0] assms True show ?thesis by auto
next
  case False
  then show ?thesis using lastKept_none[of rows m vt a 0] by auto
qed

lemma valid_rows_nonzero:
  assumes "isValidSystem sid" "parserValidated sid B"
  shows "\<forall>row \<in> set (zip (addresses B) (vals B)). (word_of_int (snd row) :: 32 word) \<noteq> 0"
proof
  fix row assume "row \<in> set (zip (addresses B) (vals B))"
  then have "snd row \<in> set (vals B)"
    using set_zip_rightD[of "fst row" "snd row" "addresses B" "vals B"] by simp
  with assms(2) have "validateValue sid (snd row)" by (simp add: parserValidated_def)
  from valid_bounds[OF assms(1) this] show "(word_of_int (snd row) :: 32 word) \<noteq> 0"
    by (intro word_of_int_nonzero) auto
qed

subsection \<open>The classification depends on the set of slot values only\<close>

lemma classifyLoop_first:
  assumes "fv \<noteq> 0" "0 \<notin> set xs"
  shows "classifyLoop xs fv a = (False, a \<and> (\<forall>x \<in> set xs. x = fv))"
  using assms by (induction xs arbitrary: a) auto

lemma classifyLoop_zero:
  assumes "0 \<in> set xs"
  shows "fst (classifyLoop xs fv a)"
  using assms by (induction xs arbitrary: fv a) auto

lemma classifyLoop_start:
  assumes "0 \<notin> set xs"
  shows "classifyLoop xs 0 True = (False, \<forall>u \<in> set xs. \<forall>v \<in> set xs. u = v)"
proof (cases xs)
  case Nil
  then show ?thesis by simp
next
  case (Cons h t)
  with assms have h: "h \<noteq> 0" and t: "0 \<notin> set t" by auto
  have "classifyLoop xs 0 True = classifyLoop t h True"
    using h by (simp add: Cons)
  also have "\<dots> = (False, True \<and> (\<forall>u \<in> set t. u = h))"
    using h t by (rule classifyLoop_first)
  also have "(True \<and> (\<forall>u \<in> set t. u = h)) = (\<forall>u \<in> set xs. \<forall>v \<in> set xs. u = v)"
  proof -
    have "(\<forall>u \<in> set t. u = h) \<longleftrightarrow> (\<forall>u \<in> insert h (set t). \<forall>v \<in> insert h (set t). u = v)"
    proof
      assume a: "\<forall>u \<in> set t. u = h"
      show "\<forall>u \<in> insert h (set t). \<forall>v \<in> insert h (set t). u = v"
      proof (intro ballI)
        fix u v assume "u \<in> insert h (set t)" "v \<in> insert h (set t)"
        with a have "u = h" "v = h" by blast+
        then show "u = v" by simp
      qed
    next
      assume b: "\<forall>u \<in> insert h (set t). \<forall>v \<in> insert h (set t). u = v"
      show "\<forall>u \<in> set t. u = h"
      proof
        fix u assume "u \<in> set t"
        with b show "u = h" by blast
      qed
    qed
    then show ?thesis by (simp add: Cons)
  qed
  finally show ?thesis .
qed

lemma classify_set: "classify n sl = classOfSet (set (take n sl))"
proof (cases "0 \<in> set (take n sl)")
  case True
  from classifyLoop_zero[OF True, of 0 True] True show ?thesis
    by (auto simp: classify_def classOfSet_def split: prod.splits)
next
  case False
  from classifyLoop_start[OF False] False show ?thesis
    by (simp add: classify_def classOfSet_def)
qed

subsection \<open>The node map as a function of the list of batches\<close>

lemma rep_start:
  assumes "setSystem sid newPreprocessor = Inr st"
  shows "rep sid [] st \<and> isValidSystem sid"
  using assms
  by (auto simp: setSystem_def newPreprocessor_def reset_def rep_def cacheOk_def
        lengthsOk_def slotOf_def split: if_splits)

lemma rep_withCache:
  assumes "rep sid bs st"
  shows "rep sid bs (st\<lparr>countsCache := Some (computeCounts st)\<rparr>)"
  using assms by (simp add: rep_def cacheOk_def)

lemma rep_add:
  assumes r: "rep sid bs st" and v: "isValidSystem sid" and pv: "parserValidated sid B"
      and lt: "length bs < maxFiles"
  shows "\<exists>st'. addBatch B st = Inr (computeCounts st', st') \<and> rep sid (bs @ [B]) st'"
proof -
  from r have sid: "systemId st = Some sid" and bc: "batchCount st = length bs"
    and mb: "maxBatches st = maxFiles" and d: "distinct (map fst (nodeMap st))"
    and lo: "lengthsOk maxFiles (nodeMap st)"
    and keys: "fst ` set (nodeMap st) = {a. \<exists>B \<in> set bs. batchSlot sid B a \<noteq> 0}"
    and sl: "\<And>a b. b < maxFiles \<Longrightarrow>
             slotOf (nodeMap st) a b = (if b < length bs then batchSlot sid (bs ! b) a else 0)"
    by (simp_all add: rep_def)
  define m where "m = getSystemMask sid"
  define vt where "vt = vtableValues (vals B)"
  define rows where "rows = zip (addresses B) (vals B)"
  define nm where "nm = fold (addRow m vt maxFiles (length bs)) rows (nodeMap st)"
  define st1 where "st1 = st\<lparr>nodeMap := nm, batchCount := length bs + 1, countsCache := None\<rparr>"
  define st' where "st' = st1\<lparr>countsCache := Some (computeCounts st1)\<rparr>"
  have ab: "addBatch B st = Inr (getCounts st1)"
    using sid bc mb lt by (simp add: addBatch_def Let_def st1_def nm_def m_def vt_def rows_def)
  have gc: "getCounts st1 = (computeCounts st', st')"
    by (simp add: getCounts_def st1_def st'_def Let_def)
  have nz: "\<forall>row \<in> set rows. (word_of_int (snd row) :: 32 word) \<noteq> 0"
    unfolding rows_def using v pv by (rule valid_rows_nonzero)
  have bs_slot: "batchSlot sid B a = lastKept m vt rows a 0" for a
    by (simp add: batchSlot_def m_def vt_def rows_def)
  have keys': "fst ` set nm = {a. \<exists>B' \<in> set (bs @ [B]). batchSlot sid B' a \<noteq> 0}"
  proof -
    have "fst ` set nm = fst ` set (nodeMap st)
            \<union> {a. \<exists>row \<in> set rows. keptRow m vt row \<and> fst row = a}"
      unfolding nm_def by (rule addRows_keys)
    also have "{a. \<exists>row \<in> set rows. keptRow m vt row \<and> fst row = a}
             = {a. batchSlot sid B a \<noteq> 0}"
      using lastKept_nonzero[OF nz, of m vt] by (simp add: bs_slot)
    finally show ?thesis using keys by auto
  qed
  have slots': "slotOf nm a b = (if b < length (bs @ [B]) then batchSlot sid ((bs @ [B]) ! b) a else 0)"
    if b: "b < maxFiles" for a b
  proof -
    have s: "slotOf nm a b
        = (if b = length bs then lastKept m vt rows a (slotOf (nodeMap st) a (length bs))
           else slotOf (nodeMap st) a b)"
      unfolding nm_def by (rule addRows_slot[OF lo lt b])
    have z: "slotOf (nodeMap st) a (length bs) = 0" using sl[OF lt, of a] by simp
    show ?thesis
    proof (cases "b = length bs")
      case True
      then show ?thesis using s z by (simp add: bs_slot)
    next
      case False
      then show ?thesis using s sl[OF b, of a] by (auto simp: nth_append)
    qed
  qed
  have "rep sid (bs @ [B]) st1"
    using sid mb lt keys' slots'
    by (simp add: rep_def st1_def cacheOk_def nm_def addRows_distinct[OF d] addRows_lengths[OF lo]
           del: set_append)
  then have "rep sid (bs @ [B]) st'" unfolding st'_def by (rule rep_withCache)
  with ab gc show ?thesis by auto
qed

lemma map_of_filter_distinct:
  assumes "distinct (map fst al)"
  shows "map_of (filter P al) k
       = (case map_of al k of None \<Rightarrow> None | Some v \<Rightarrow> if P (k, v) then Some v else None)"
  using assms
proof (induction al)
  case Nil
  then show ?case by simp
next
  case (Cons p al)
  obtain k' v' where p: "p = (k', v')" by (cases p)
  from Cons.prems p have nk: "k' \<notin> fst ` set al" and d: "distinct (map fst al)" by auto
  from nk have none: "map_of al k' = None" by (simp add: map_of_eq_None_iff)
  show ?case using Cons.IH[OF d] none by (auto simp: p split: option.splits)
qed

lemma map_of_map_snd:
  "map_of (map (\<lambda>(a, sl). (a, f sl)) al) k = map_option f (map_of al k)"
  by (induction al) auto

lemma anyNonZero_nth:
  assumes "n \<le> length sl"
  shows "anyNonZero n sl = (\<exists>b < n. sl ! b \<noteq> 0)"
proof
  assume "anyNonZero n sl"
  then obtain v where v: "v \<in> set (take n sl)" "v \<noteq> 0" by (auto simp: anyNonZero_def)
  then obtain b where "b < length (take n sl)" "take n sl ! b = v"
    by (auto simp: in_set_conv_nth)
  with v(2) assms show "\<exists>b < n. sl ! b \<noteq> 0" by auto
next
  assume "\<exists>b < n. sl ! b \<noteq> 0"
  then obtain b where b: "b < n" "sl ! b \<noteq> 0" by auto
  with assms have "take n sl ! b \<in> set (take n sl)" by (intro nth_mem) simp
  with b show "anyNonZero n sl" by (auto simp: anyNonZero_def)
qed

lemma rep_remove:
  assumes r: "rep sid bs st" and i: "i < length bs"
  shows "\<exists>st'. removeBatch (int i) st = Inr (computeCounts st', st')
            \<and> rep sid (take i bs @ drop (Suc i) bs) st'"
proof -
  from r have sid: "systemId st = Some sid" and bc: "batchCount st = length bs"
    and mb: "maxBatches st = maxFiles" and le: "length bs \<le> maxFiles"
    and d: "distinct (map fst (nodeMap st))"
    and lo: "lengthsOk maxFiles (nodeMap st)"
    and keys: "fst ` set (nodeMap st) = {a. \<exists>B \<in> set bs. batchSlot sid B a \<noteq> 0}"
    and sl: "\<And>a b. b < maxFiles \<Longrightarrow>
             slotOf (nodeMap st) a b = (if b < length bs then batchSlot sid (bs ! b) a else 0)"
    by (simp_all add: rep_def)
  define n where "n = length bs"
  define bs' where "bs' = take i bs @ drop (Suc i) bs"
  define sh where "sh = map (\<lambda>(addr, sl). (addr, shiftSlots maxFiles i sl)) (nodeMap st)"
  define nm where "nm = filter (\<lambda>(addr, sl). anyNonZero (n - 1) sl) sh"
  define st1 where "st1 = st\<lparr>nodeMap := nm, batchCount := n - 1, countsCache := None\<rparr>"
  define st' where "st' = st1\<lparr>countsCache := Some (computeCounts st1)\<rparr>"
  have im: "i < maxFiles" and n1: "n - 1 < maxFiles" and npos: "0 < n"
    using i le by (auto simp: n_def)
  have lbs': "length bs' = n - 1" using i by (simp add: bs'_def n_def)
  have rb: "removeBatch (int i) st = Inr (getCounts st1)"
    using i bc mb
    by (simp add: removeBatch_def Let_def st1_def nm_def sh_def n_def)
  have gc: "getCounts st1 = (computeCounts st', st')"
    by (simp add: getCounts_def st1_def st'_def Let_def)
  have fst_sh: "map fst sh = map fst (nodeMap st)"
    by (simp add: sh_def case_prod_beta comp_def)
  have d_sh: "distinct (map fst sh)" using d by (simp add: fst_sh)
  have lo_sh: "lengthsOk maxFiles sh"
    using lo by (auto simp: lengthsOk_def sh_def shiftSlots_length)
  have bs'_nth: "bs' ! b = (if b < i then bs ! b else bs ! (b + 1))" if "b < n - 1" for b
    using that i by (auto simp: bs'_def nth_append n_def min_def)
  \<comment> \<open>the slots after the shift\<close>
  have sh_slot: "slotOf sh a b = (if b < n - 1 then batchSlot sid (bs' ! b) a else 0)"
    if b: "b < maxFiles" for a b
  proof (cases "map_of (nodeMap st) a")
    case None
    then have z: "slotOf (nodeMap st) a c = 0" for c by (simp add: slotOf_def)
    have "slotOf sh a b = 0" using None by (simp add: slotOf_def sh_def map_of_map_snd)
    moreover have "batchSlot sid (bs' ! b) a = 0" if "b < n - 1"
    proof -
      have "b < maxFiles" "b + 1 < maxFiles" "b < length bs" "b + 1 < length bs"
        using that le by (simp_all add: n_def)
      then show ?thesis using sl[of b a] sl[of "b + 1" a] z bs'_nth[OF that] by auto
    qed
    ultimately show ?thesis by simp
  next
    case (Some s)
    then have "(a, s) \<in> set (nodeMap st)" by (rule map_of_SomeD)
    with lo have ls: "length s = maxFiles" by (auto simp: lengthsOk_def)
    have o: "slotOf (nodeMap st) a c = s ! c" for c using Some by (simp add: slotOf_def)
    have "slotOf sh a b = shiftSlots maxFiles i s ! b"
      using Some by (simp add: slotOf_def sh_def map_of_map_snd)
    also have "\<dots> = (if b = maxFiles - 1 then 0 else if i \<le> b then s ! (b + 1) else s ! b)"
      by (rule shiftSlots_nth[OF im ls b])
    finally have e: "slotOf sh a b
        = (if b = maxFiles - 1 then 0 else if i \<le> b then s ! (b + 1) else s ! b)" .
    show ?thesis
    proof (cases "b < n - 1")
      case True
      then have "b \<noteq> maxFiles - 1" "b < length bs" "b + 1 < length bs" "b + 1 < maxFiles"
        using le by (simp_all add: n_def)
      then show ?thesis
        using e True bs'_nth[OF True] sl[of b a] sl[of "b + 1" a] b o by auto
    next
      case False
      then have ib: "i \<le> b" and nb: "\<not> b + 1 < length bs" using i by (simp_all add: n_def)
      show ?thesis
      proof (cases "b = maxFiles - 1")
        case True
        then show ?thesis using e False by simp
      next
        case nl: False
        then have "b + 1 < maxFiles" using b by simp
        from sl[OF this, of a] nb have "s ! (b + 1) = 0" by (simp add: o)
        then show ?thesis using e False nl ib by simp
      qed
    qed
  qed
  \<comment> \<open>pruning deletes only all-zero entries\<close>
  have nm_map: "map_of nm a
      = (case map_of sh a of None \<Rightarrow> None
         | Some s \<Rightarrow> if anyNonZero (n - 1) s then Some s else None)" for a
    unfolding nm_def using map_of_filter_distinct[OF d_sh, of "\<lambda>(addr, sl). anyNonZero (n - 1) sl" a]
    by (auto split: option.splits)
  have any_sh: "anyNonZero (n - 1) s = (\<exists>b < n - 1. batchSlot sid (bs' ! b) a \<noteq> 0)"
    if "map_of sh a = Some s" for a s
  proof -
    from that have "(a, s) \<in> set sh" by (rule map_of_SomeD)
    with lo_sh have ls: "length s = maxFiles" by (auto simp: lengthsOk_def)
    have o: "slotOf sh a c = s ! c" for c using that by (simp add: slotOf_def)
    have "anyNonZero (n - 1) s = (\<exists>b < n - 1. s ! b \<noteq> 0)"
      using n1 ls by (intro anyNonZero_nth) simp
    also have "\<dots> = (\<exists>b < n - 1. batchSlot sid (bs' ! b) a \<noteq> 0)"
    proof -
      have "s ! b = batchSlot sid (bs' ! b) a" if "b < n - 1" for b
      proof -
        from that n1 have "b < maxFiles" by simp
        from sh_slot[OF this, of a] that show ?thesis by (simp add: o)
      qed
      then show ?thesis by auto
    qed
    finally show ?thesis .
  qed
  have nm_slot: "slotOf nm a b = (if b < length bs' then batchSlot sid (bs' ! b) a else 0)"
    if b: "b < maxFiles" for a b
  proof (cases "map_of sh a")
    case None
    then have "slotOf nm a b = slotOf sh a b" by (simp add: slotOf_def nm_map)
    then show ?thesis using sh_slot[OF b, of a] by (simp add: lbs')
  next
    case (Some s)
    show ?thesis
    proof (cases "anyNonZero (n - 1) s")
      case True
      then have "slotOf nm a b = slotOf sh a b" using Some by (simp add: slotOf_def nm_map)
      then show ?thesis using sh_slot[OF b, of a] by (simp add: lbs')
    next
      case False
      then have z: "slotOf nm a b = 0" using Some by (simp add: slotOf_def nm_map)
      from False any_sh[OF Some] have "\<forall>b < n - 1. batchSlot sid (bs' ! b) a = 0" by simp
      then show ?thesis using z by (simp add: lbs')
    qed
  qed
  have set_bs': "set bs' \<subseteq> set bs"
    unfolding bs'_def using set_take_subset[of i bs] set_drop_subset[of "Suc i" bs] by auto
  have nm_keys: "fst ` set nm = {a. \<exists>B \<in> set bs'. batchSlot sid B a \<noteq> 0}"
  proof -
    have d_nm: "distinct (map fst nm)" unfolding nm_def using d_sh by (rule distinct_map_filter)
    have "(a \<in> fst ` set nm) = (\<exists>B \<in> set bs'. batchSlot sid B a \<noteq> 0)" for a
    proof -
      have "(a \<in> fst ` set nm) = (map_of nm a \<noteq> None)"
        by (simp add: map_of_eq_None_iff)
      also have "\<dots> = (\<exists>B \<in> set bs'. batchSlot sid B a \<noteq> 0)"
      proof (cases "map_of sh a")
        case None
        then have "a \<notin> fst ` set sh" by (simp add: map_of_eq_None_iff)
        then have "a \<notin> fst ` set (nodeMap st)"
          using fst_sh by (metis list.set_map)
        with keys have "\<forall>B \<in> set bs. batchSlot sid B a = 0" by auto
        with set_bs' have "\<forall>B \<in> set bs'. batchSlot sid B a = 0" by auto
        then show ?thesis using None by (simp add: nm_map)
      next
        case (Some s)
        have "(\<exists>b < n - 1. batchSlot sid (bs' ! b) a \<noteq> 0)
            = (\<exists>B \<in> set bs'. batchSlot sid B a \<noteq> 0)"
          using lbs' by (auto simp: set_conv_nth)
        then show ?thesis using Some any_sh[OF Some] by (simp add: nm_map)
      qed
      finally show ?thesis .
    qed
    then show ?thesis by auto
  qed
  have d_nm: "distinct (map fst nm)" unfolding nm_def using d_sh by (rule distinct_map_filter)
  have lo_nm: "lengthsOk maxFiles nm" using lo_sh by (auto simp: lengthsOk_def nm_def)
  have "rep sid bs' st1"
    using sid mb n1 lbs' nm_keys nm_slot d_nm lo_nm
    by (simp add: rep_def st1_def cacheOk_def)
  then have "rep sid bs' st'" unfolding st'_def by (rule rep_withCache)
  with rb gc show ?thesis by (auto simp: bs'_def)
qed

lemma rep_classify:
  assumes r: "rep sid bs st" and mem: "node \<in> set (nodeMap st)"
  shows "classify (batchCount st) (snd node)
       = classOfSet ((\<lambda>B. batchSlot sid B (fst node)) ` set bs)"
proof -
  from r have bc: "batchCount st = length bs" and le: "length bs \<le> maxFiles"
    and d: "distinct (map fst (nodeMap st))" and lo: "lengthsOk maxFiles (nodeMap st)"
    and sl: "\<And>a b. b < maxFiles \<Longrightarrow>
             slotOf (nodeMap st) a b = (if b < length bs then batchSlot sid (bs ! b) a else 0)"
    by (simp_all add: rep_def)
  obtain a s where node: "node = (a, s)" by (cases node)
  from mem node d have m: "map_of (nodeMap st) a = Some s" by simp
  from mem node lo have ls: "length s = maxFiles" by (auto simp: lengthsOk_def)
  have nth: "s ! b = batchSlot sid (bs ! b) a" if "b < length bs" for b
  proof -
    from that le have "b < maxFiles" by simp
    from sl[OF this, of a] that m show ?thesis by (simp add: slotOf_def)
  qed
  have "set (take (length bs) s) = (\<lambda>B. batchSlot sid B a) ` set bs"
  proof (rule set_eqI)
    fix w
    have "w \<in> set (take (length bs) s) \<longleftrightarrow> (\<exists>b < length bs. take (length bs) s ! b = w)"
      using le ls by (auto simp: in_set_conv_nth)
    also have "\<dots> \<longleftrightarrow> (\<exists>b < length bs. batchSlot sid (bs ! b) a = w)"
      using nth by auto
    also have "\<dots> \<longleftrightarrow> w \<in> (\<lambda>B. batchSlot sid B a) ` set bs"
    proof
      assume "\<exists>b < length bs. batchSlot sid (bs ! b) a = w"
      then obtain b where "b < length bs" "batchSlot sid (bs ! b) a = w" by blast
      then show "w \<in> (\<lambda>B. batchSlot sid B a) ` set bs"
        using nth_mem[of b bs] by blast
    next
      assume "w \<in> (\<lambda>B. batchSlot sid B a) ` set bs"
      then obtain B where "B \<in> set bs" "w = batchSlot sid B a" by blast
      then show "\<exists>b < length bs. batchSlot sid (bs ! b) a = w"
        by (metis in_set_conv_nth)
    qed
    finally show "w \<in> set (take (length bs) s) \<longleftrightarrow> w \<in> (\<lambda>B. batchSlot sid B a) ` set bs" .
  qed
  then show ?thesis by (simp add: classify_set bc node)
qed

lemma rep_counts:
  assumes r: "rep sid bs st"
  shows "length (filter (\<lambda>node. classify (batchCount st) (snd node) = k) (nodeMap st))
       = card {a. (\<exists>B \<in> set bs. batchSlot sid B a \<noteq> 0)
                  \<and> classOfSet ((\<lambda>B. batchSlot sid B a) ` set bs) = k}"
proof -
  define Q where "Q = (\<lambda>node :: int \<times> slots.
                         classOfSet ((\<lambda>B. batchSlot sid B (fst node)) ` set bs) = k)"
  from r have d: "distinct (map fst (nodeMap st))"
    and keys: "fst ` set (nodeMap st) = {a. \<exists>B \<in> set bs. batchSlot sid B a \<noteq> 0}"
    by (simp_all add: rep_def)
  have "filter (\<lambda>node. classify (batchCount st) (snd node) = k) (nodeMap st)
      = filter Q (nodeMap st)"
    by (rule filter_cong[OF refl]) (simp add: Q_def rep_classify[OF r])
  then have "length (filter (\<lambda>node. classify (batchCount st) (snd node) = k) (nodeMap st))
      = length (map fst (filter Q (nodeMap st)))" by simp
  also have "\<dots> = card (set (map fst (filter Q (nodeMap st))))"
    using distinct_card[OF distinct_map_filter[OF d, of Q]] by (simp only:)
  also have "set (map fst (filter Q (nodeMap st)))
      = {a. (\<exists>B \<in> set bs. batchSlot sid B a \<noteq> 0)
            \<and> classOfSet ((\<lambda>B. batchSlot sid B a) ` set bs) = k}"
  proof (rule set_eqI)
    fix a
    have "a \<in> set (map fst (filter Q (nodeMap st)))
        \<longleftrightarrow> a \<in> fst ` set (nodeMap st) \<and> classOfSet ((\<lambda>B. batchSlot sid B a) ` set bs) = k"
    proof
      assume "a \<in> set (map fst (filter Q (nodeMap st)))"
      then obtain node where "node \<in> set (nodeMap st)" "Q node" "a = fst node" by auto
      then show "a \<in> fst ` set (nodeMap st)
          \<and> classOfSet ((\<lambda>B. batchSlot sid B a) ` set bs) = k"
        by (auto simp: Q_def)
    next
      assume h: "a \<in> fst ` set (nodeMap st)
          \<and> classOfSet ((\<lambda>B. batchSlot sid B a) ` set bs) = k"
      then obtain node where n: "node \<in> set (nodeMap st)" "a = fst node" by blast
      with h have "Q node" by (simp add: Q_def)
      with n have "node \<in> set (filter Q (nodeMap st))" by simp
      then have "fst node \<in> fst ` set (filter Q (nodeMap st))" by (rule imageI)
      then show "a \<in> set (map fst (filter Q (nodeMap st)))" using n(2) by simp
    qed
    then show "a \<in> set (map fst (filter Q (nodeMap st)))
        \<longleftrightarrow> a \<in> {a. (\<exists>B \<in> set bs. batchSlot sid B a \<noteq> 0)
            \<and> classOfSet ((\<lambda>B. batchSlot sid B a) ` set bs) = k}"
      using keys by auto
  qed
  finally show ?thesis .
qed

lemma rep_addAll:
  assumes "rep sid bs st0" "isValidSystem sid" "\<forall>B \<in> set batches. parserValidated sid B"
      and "addAll batches st0 = Inr st"
  shows "rep sid (bs @ batches) st"
  using assms
proof (induction batches arbitrary: bs st0)
  case Nil
  then show ?case by simp
next
  case (Cons B batches)
  show ?case
  proof (cases "length bs < maxFiles")
    case True
    from Cons.prems have pv: "parserValidated sid B" by simp
    from rep_add[OF Cons.prems(1,2) pv True] obtain st' where
      st': "addBatch B st0 = Inr (computeCounts st', st')" "rep sid (bs @ [B]) st'" by blast
    from Cons.prems(4) st'(1) have "addAll batches st' = Inr st" by simp
    from Cons.IH[OF st'(2) Cons.prems(2) _ this] Cons.prems(3) show ?thesis by simp
  next
    case False
    with Cons.prems(1) have "addBatch B st0 = Inl BatchLimitExceeded"
      by (simp add: addBatch_def rep_def)
    with Cons.prems(4) show ?thesis by simp
  qed
qed

text \<open>
  Claim C7. After \<open>setSystem\<close> and any sequence of parser-validated batches (at most
  \<open>maxFiles\<close>, or \<open>addBatch\<close> throws), for every batch index \<open>i\<close>: \<open>removeBatch (i)\<close>
  returns, \<open>addBatch\<close> of the original batch \<open>i\<close> then returns, and the counts it returns
  have the same \<open>staticStatics\<close>, \<open>staticNodes\<close> and \<open>dynamicNodes\<close> as the counts of the
  state in which the batch was never removed.
\<close>

theorem remove_readd_same_counts:
  assumes "setSystem sid newPreprocessor = Inr st0"
      and "\<forall>B \<in> set batches. parserValidated sid B"
      and "addAll batches st0 = Inr st"
      and "i < length batches"
  shows "\<exists>c1 st1 c2 st2.
           removeBatch (int i) st = Inr (c1, st1)
         \<and> addBatch (batches ! i) st1 = Inr (c2, st2)
         \<and> staticStatics c2 = staticStatics (fst (getCounts st))
         \<and> staticNodes c2 = staticNodes (fst (getCounts st))
         \<and> dynamicNodes c2 = dynamicNodes (fst (getCounts st))"
proof -
  from rep_start[OF assms(1)] have r0: "rep sid [] st0" and v: "isValidSystem sid" by simp_all
  from rep_addAll[OF r0 v assms(2,3)] have r: "rep sid batches st" by simp
  then have le: "length batches \<le> maxFiles" and c: "cacheOk st" by (simp_all add: rep_def)
  define bs1 where "bs1 = take i batches @ drop (Suc i) batches"
  from rep_remove[OF r assms(4)] obtain st1 where
    st1: "removeBatch (int i) st = Inr (computeCounts st1, st1)" "rep sid bs1 st1"
    by (auto simp: bs1_def)
  have l1: "length bs1 < maxFiles" using assms(4) le by (simp add: bs1_def)
  have pv: "parserValidated sid (batches ! i)" using assms(2,4) by simp
  from rep_add[OF st1(2) v pv l1] obtain st2 where
    st2: "addBatch (batches ! i) st1 = Inr (computeCounts st2, st2)"
         "rep sid (bs1 @ [batches ! i]) st2" by blast
  have "set (bs1 @ [batches ! i]) = set (take i batches @ batches ! i # drop (Suc i) batches)"
    by (auto simp: bs1_def)
  also have "take i batches @ batches ! i # drop (Suc i) batches = batches"
    using assms(4) by (simp add: id_take_nth_drop[symmetric])
  finally have same: "set (bs1 @ [batches ! i]) = set batches" .
  have tot: "length (filter (\<lambda>node. classify (batchCount st2) (snd node) = k) (nodeMap st2))
           = length (filter (\<lambda>node. classify (batchCount st) (snd node) = k) (nodeMap st))" for k
    unfolding rep_counts[OF st2(2)] rep_counts[OF r] same ..
  have "staticStatics (computeCounts st2) = staticStatics (computeCounts st)"
       "staticNodes (computeCounts st2) = staticNodes (computeCounts st)"
       "dynamicNodes (computeCounts st2) = dynamicNodes (computeCounts st)"
    unfolding computeCounts_totals tot by simp_all
  then show ?thesis using st1(1) st2(1) getCounts_fst[OF c] by auto
qed

theorem remove_readd_same_counts_witness:
  "\<exists>c1 st1 c2 st2.
      removeBatch (int 0) (withCache ps1Two) = Inr (c1, st1)
    \<and> addBatch ([batchA, batchB] ! 0) st1 = Inr (c2, st2)
    \<and> staticStatics c2 = staticStatics (fst (getCounts (withCache ps1Two)))
    \<and> staticNodes c2 = staticNodes (fst (getCounts (withCache ps1Two)))
    \<and> dynamicNodes c2 = dynamicNodes (fst (getCounts (withCache ps1Two)))"
proof -
  have a: "addAll [batchA, batchB] ps1Empty = Inr (withCache ps1Two)"
    by (simp add: add_batchA add_batchB)
  have v: "\<forall>B \<in> set [batchA, batchB]. parserValidated ''ps1'' B"
    by (simp add: valid_batchA valid_batchB)
  from remove_readd_same_counts[OF start_ps1 v a, of 0] show ?thesis by simp
qed

subsection \<open>The chain walk returns\<close>

lemma chainLoop_returns:
  "chainLoop pool offset getVal maxGhost target ns gs visited current tg \<noteq> None"
proof (induction "card (set pool - visited)" arbitrary: ns gs visited current tg
         rule: less_induct)
  case less
  show ?case
  proof (cases "current \<in> visited \<or> (case target of None \<Rightarrow> False | Some tp \<Rightarrow> current \<in> tp)
                 \<or> current \<notin> set pool")
    case True
    then show ?thesis by (subst chainLoop.simps) auto
  next
    case False
    then have cur: "current \<notin> visited" "current \<in> set pool"
      and nt: "\<not> (case target of None \<Rightarrow> False | Some tp \<Rightarrow> current \<in> tp)" by auto
    have "set pool - insert current visited \<subset> set pool - visited" using cur by auto
    then have dec: "card (set pool - insert current visited) < card (set pool - visited)"
      by (intro psubset_card_mono) auto
    note IH = less.hyps[OF dec]
    show ?thesis
    proof (cases "getVal current")
      case None
      then show ?thesis using cur nt by (subst chainLoop.simps) auto
    next
      case (Some val)
      note gval = Some
      show ?thesis
      proof (cases "val + offset \<in> set pool")
        case True
        then show ?thesis
          using cur nt gval IH[of "ns @ [current]" gs "val + offset" tg]
          by (subst chainLoop.simps) (auto simp: Let_def)
      next
        case np: False
        show ?thesis
        proof (cases "findBridge pool offset maxGhost 0 (val + offset)")
          case None
          then show ?thesis using cur nt gval np
            by (subst chainLoop.simps) (auto simp: Let_def)
        next
          case (Some fb)
          note fbv = Some
          obtain tgt cnt where fb: "fb = (tgt, cnt)" by (cases fb)
          show ?thesis
            using cur nt gval np fbv fb
              IH[of "ns @ [current]"
                "gs @ map (\<lambda>k. val + offset + int k * offset) [0 ..< nat cnt]" tgt "tg + cnt"]
            by (subst chainLoop.simps) (auto simp: Let_def)
        qed
      qed
    qed
  qed
qed

lemma walkStep_returns: "walkStep pool offset getVal opts pointed startAddr acc \<noteq> None"
proof -
  obtain chs eps processed where acc: "acc = (chs, eps, processed)" by (cases acc)
  obtain ns gs hit where
    "chainLoop pool offset getVal (maxGhostNodes opts) (targetPool opts) [] [] {} startAddr 0
       = Some (ns, gs, hit)"
    using chainLoop_returns[of pool offset getVal "maxGhostNodes opts" "targetPool opts"
            "[]" "[]" "{}" startAddr 0]
    by (metis not_None_eq prod_cases3)
  then show ?thesis unfolding acc by (simp add: walkStep_def Let_def)
qed

lemma walkFrom_returns: "walkFrom pool offset getVal opts pointed starts acc \<noteq> None"
proof (induction starts arbitrary: acc)
  case Nil
  then show ?case by simp
next
  case (Cons a starts)
  from walkStep_returns[of pool offset getVal opts pointed a acc] obtain acc1 where
    "walkStep pool offset getVal opts pointed a acc = Some acc1" by blast
  with Cons.IH[of acc1] show ?case by simp
qed

lemma walkChainsAtOffset_returns:
  "\<exists>chs eps. walkChainsAtOffset pool offset getVal opts = Some (chs, eps)"
proof -
  from walkFrom_returns[of pool offset getVal opts "pointedTo pool offset getVal" pool "([], [], {})"]
  obtain chs eps processed where
    "walkFrom pool offset getVal opts (pointedTo pool offset getVal) pool ([], [], {})
       = Some (chs, eps, processed)"
    by (metis not_None_eq prod_cases3)
  then show ?thesis by (simp add: walkChainsAtOffset_def)
qed

text \<open>
  Claim C10. \<open>walkChainsAtOffset\<close> returns for every pool (a finite list of addresses),
  every offset, every value function and every setting of the options: every iteration
  of the walk that goes on adds a pool address that was not visited before to
  \<open>visited\<close>, and the bridging loop runs below \<open>maxGhostNodes\<close>.
\<close>

theorem walkChainsAtOffset_total:
  "\<exists>chs eps. walkChainsAtOffset pool offset getVal opts = Some (chs, eps)"
  by (rule walkChainsAtOffset_returns)

end
